theory Spec2Isabelle
  imports Main
begin

section \<open>Strings and bytes\<close>

text \<open>
  Go strings are byte sequences; a \<^typ>\<open>string\<close> is a list of bytes. The helpers below
  cover the ASCII range, which is where HTTP verbs, the word class \<open>\w\<close> of Go's regexp
  package and the metacharacters of its syntax live.
\<close>

definition is_lower :: "char \<Rightarrow> bool" where
  "is_lower c = (let n = (of_char c :: nat) in 97 \<le> n \<and> n \<le> 122)"

definition is_upper :: "char \<Rightarrow> bool" where
  "is_upper c = (let n = (of_char c :: nat) in 65 \<le> n \<and> n \<le> 90)"

definition is_digit :: "char \<Rightarrow> bool" where
  "is_digit c = (let n = (of_char c :: nat) in 48 \<le> n \<and> n \<le> 57)"

text \<open>The class \<open>\w\<close> of Go's regexp syntax: \<open>[0-9A-Za-z_]\<close>, ASCII only.\<close>

definition is_word_char :: "char \<Rightarrow> bool" where
  "is_word_char c = (is_digit c \<or> is_upper c \<or> is_lower c \<or> c = CHR ''_'')"

text \<open>
  \<open>strings.ToUpper\<close> on ASCII text: a lower-case letter loses bit 5 (that is, 32 is
  subtracted from its code), every other byte stays.
\<close>

definition upper_char :: "char \<Rightarrow> char" where
  "upper_char c =
     (if is_lower c
      then (case c of Char b0 b1 b2 b3 b4 b5 b6 b7 \<Rightarrow> Char b0 b1 b2 b3 b4 False b6 b7)
      else c)"

definition ToUpper :: "string \<Rightarrow> string" where
  "ToUpper s = map upper_char s"

text \<open>\<open>strings.HasSuffix\<close>.\<close>

definition HasSuffix :: "string \<Rightarrow> string \<Rightarrow> bool" where
  "HasSuffix s suf = (length suf \<le> length s \<and> drop (length s - length suf) s = suf)"

section \<open>Handlers\<close>

text \<open>
  A \<open>HandlerFunction\<close> is an \<open>interface{}\<close>. What the dispatcher can observe of a
  function value when it is invoked is the sequence of calls it makes on the response
  writer and on the continuation: \<open>WriteHeader(code)\<close>, \<open>Write(bytes)\<close> and \<open>Next()\<close>.
  A function value is therefore modelled by that sequence (\<open>Fail\<close> is a panic raised by
  the function itself). \<open>HFuncPtr\<close> is a pointer to
  a function, \<open>HOther\<close> any value that is not callable (such as the empty slice a new
  route starts with), \<open>HNil\<close> the nil interface.
\<close>

datatype action = WriteHeader int | Write string | CallNext | Fail

datatype HandlerFunction = HNil | HFunc "action list" | HFuncPtr "action list" | HOther

text \<open>\<open>IsCallable\<close>: a function, or a pointer whose element is a function.\<close>

fun IsCallable :: "HandlerFunction \<Rightarrow> bool" where
  "IsCallable (HFunc _) = True"
| "IsCallable (HFuncPtr _) = True"
| "IsCallable _ = False"

section \<open>Go's regexp package: the fragment the router uses\<close>

text \<open>
  The router builds its patterns as strings and hands them to \<open>regexp.MustCompile\<close>;
  the library itself is not part of the repository. It is modelled here for the syntax
  the router's own fragments produce: literals, \<open>.\<close>, \<open>^\<close>, \<open>$\<close>, the Perl classes
  \<open>\w \d \s\<close> and their negations, escaped punctuation, capturing groups, alternation
  and the repetitions \<open>* + ?\<close> (greedy or lazy). A pattern that uses anything else
  (bracket classes, counted repetition, \<open>(?\<close> groups and flags, other escapes, bytes
  outside ASCII) is answered with \<open>Unsupported\<close>, about which nothing is claimed.
\<close>

datatype cclass = CWord | CDigit | CSpace

fun in_class :: "cclass \<Rightarrow> char \<Rightarrow> bool" where
  "in_class CWord c = is_word_char c"
| "in_class CDigit c = is_digit c"
| "in_class CSpace c = (c \<in> set [CHR 0x09, CHR 0x0A, CHR 0x0C, CHR 0x0D, CHR '' ''])"

datatype regex =
    EmptyMatch
  | Literal char
  | AnyCharNotNL
  | CharClass bool cclass
  | BeginText
  | EndText
  | Concat regex regex
  | Alternate regex regex
  | Quest regex
  | Star regex
  | Plus regex
  | Capture regex

fun rank :: "regex \<Rightarrow> nat" where
  "rank (Concat a b) = Suc (rank a + rank b)"
| "rank (Alternate a b) = Suc (rank a + rank b)"
| "rank (Quest a) = Suc (rank a)"
| "rank (Star a) = Suc (rank a)"
| "rank (Plus a) = Suc (Suc (rank a))"
| "rank (Capture a) = Suc (rank a)"
| "rank _ = 0"

text \<open>
  A position in the text is the suffix still to be read, with a flag that says whether
  the position is the start of the text (where \<open>^\<close> holds). \<open>rx_ends r p\<close> lists every
  position at which a match of \<open>r\<close> that starts at \<open>p\<close> can end. An iteration of a star
  that consumes nothing adds no new end position and is dropped, which also bounds the
  recursion.
\<close>

type_synonym pos = "bool \<times> string"

function rx_ends :: "regex \<Rightarrow> pos \<Rightarrow> pos list" where
  "rx_ends EmptyMatch p = [p]"
| "rx_ends (Literal c) p =
     (case snd p of [] \<Rightarrow> [] | x # xs \<Rightarrow> if x = c then [(False, xs)] else [])"
| "rx_ends AnyCharNotNL p =
     (case snd p of [] \<Rightarrow> [] | x # xs \<Rightarrow> if x \<noteq> CHR 0x0A then [(False, xs)] else [])"
| "rx_ends (CharClass neg k) p =
     (case snd p of [] \<Rightarrow> [] | x # xs \<Rightarrow> if in_class k x \<noteq> neg then [(False, xs)] else [])"
| "rx_ends BeginText p = (if fst p then [p] else [])"
| "rx_ends EndText p = (if snd p = [] then [p] else [])"
| "rx_ends (Concat a b) p = concat (map (rx_ends b) (rx_ends a p))"
| "rx_ends (Alternate a b) p = rx_ends a p @ rx_ends b p"
| "rx_ends (Quest a) p = rx_ends a p @ [p]"
| "rx_ends (Star a) p =
     concat (map (rx_ends (Star a))
       (filter (\<lambda>q. length (snd q) < length (snd p)) (rx_ends a p))) @ [p]"
| "rx_ends (Plus a) p = concat (map (rx_ends (Star a)) (rx_ends a p))"
| "rx_ends (Capture a) p = rx_ends a p"
  by pat_completeness auto
termination
  by (relation "measures [\<lambda>(r, p). rank r, \<lambda>(r, p). length (snd p)]") auto

fun tails :: "string \<Rightarrow> string list" where
  "tails [] = [[]]"
| "tails (x # xs) = (x # xs) # tails xs"

definition starts :: "string \<Rightarrow> pos list" where
  "starts s = (True, s) # map (Pair False) (tl (tails s))"

text \<open>\<open>Regexp.MatchString\<close>: some match starts somewhere in the text.\<close>

definition MatchString :: "regex \<Rightarrow> string \<Rightarrow> bool" where
  "MatchString r s = list_ex (\<lambda>p. rx_ends r p \<noteq> []) (starts s)"

text \<open>
  \<open>Regexp.NumSubexp\<close>, the number of capturing groups: \<open>FindStringSubmatch\<close> returns
  one string for the whole match and one per group.
\<close>

fun NumSubexp :: "regex \<Rightarrow> nat" where
  "NumSubexp (Concat a b) = NumSubexp a + NumSubexp b"
| "NumSubexp (Alternate a b) = NumSubexp a + NumSubexp b"
| "NumSubexp (Quest a) = NumSubexp a"
| "NumSubexp (Star a) = NumSubexp a"
| "NumSubexp (Plus a) = NumSubexp a"
| "NumSubexp (Capture a) = Suc (NumSubexp a)"
| "NumSubexp _ = 0"

datatype rx_error =
    MissingRepeatArgument
  | InvalidRepeatOp
  | MissingParen
  | UnexpectedParen
  | TrailingBackslash
  | Unsupported

text \<open>
  The parser follows \<open>regexp/syntax\<close>: it reads the pattern left to right and keeps,
  for every open parenthesis, the alternatives finished so far and the items of the
  alternative being read (both newest first). A repetition operator applies to the
  newest item; it is an error when there is none (at the start, after \<open>(\<close> or \<open>|\<close>)
  and when it directly follows another repetition. A \<open>?\<close> directly after a
  repetition operator makes it lazy, which changes which match is preferred but not
  whether there is one.
\<close>

type_synonym frame = "regex list \<times> regex list"

fun mk_alt :: "regex list \<Rightarrow> regex" where
  "mk_alt [] = EmptyMatch"
| "mk_alt [r] = r"
| "mk_alt (r # rs) = Alternate r (mk_alt rs)"

definition mk_cat :: "regex list \<Rightarrow> regex" where
  "mk_cat rs = foldr Concat rs EmptyMatch"

definition close_frame :: "frame \<Rightarrow> regex" where
  "close_frame f = mk_alt (rev (mk_cat (rev (snd f)) # fst f))"

definition push :: "regex \<Rightarrow> frame \<Rightarrow> frame" where
  "push r f = (fst f, r # snd f)"

definition is_alnum :: "char \<Rightarrow> bool" where
  "is_alnum c = (is_digit c \<or> is_upper c \<or> is_lower c)"

definition escape_atom :: "char \<Rightarrow> rx_error + regex" where
  "escape_atom d =
     (if d = CHR ''w'' then Inr (CharClass False CWord)
      else if d = CHR ''W'' then Inr (CharClass True CWord)
      else if d = CHR ''d'' then Inr (CharClass False CDigit)
      else if d = CHR ''D'' then Inr (CharClass True CDigit)
      else if d = CHR ''s'' then Inr (CharClass False CSpace)
      else if d = CHR ''S'' then Inr (CharClass True CSpace)
      else if (of_char d :: nat) < 128 \<and> \<not> is_alnum d then Inr (Literal d)
      else Inl Unsupported)"

definition repeat_op :: "char \<Rightarrow> regex \<Rightarrow> regex" where
  "repeat_op c r =
     (if c = CHR ''*'' then Star r else if c = CHR ''+'' then Plus r else Quest r)"

definition plain_atom :: "char \<Rightarrow> regex" where
  "plain_atom c =
     (if c = CHR ''.'' then AnyCharNotNL
      else if c = CHR ''^'' then BeginText
      else if c = CHR ''$'' then EndText
      else Literal c)"

fun parse_rx :: "frame \<Rightarrow> frame list \<Rightarrow> bool \<Rightarrow> string \<Rightarrow> rx_error + regex" where
  "parse_rx f st lr [] = (if st = [] then Inr (close_frame f) else Inl MissingParen)"
| "parse_rx f st lr (c # cs) =
     (if c = CHR ''('' then
        (case cs of
           [] \<Rightarrow> Inl MissingParen
         | d # ds \<Rightarrow>
             if d = CHR ''?'' then Inl Unsupported
             else parse_rx ([], []) (f # st) False cs)
      else if c = CHR '')'' then
        (case st of
           [] \<Rightarrow> Inl UnexpectedParen
         | g # st' \<Rightarrow> parse_rx (push (Capture (close_frame f)) g) st' False cs)
      else if c = CHR ''|'' then parse_rx (mk_cat (rev (snd f)) # fst f, []) st False cs
      else if c = CHR ''*'' \<or> c = CHR ''+'' \<or> c = CHR ''?'' then
        (if lr then Inl InvalidRepeatOp
         else case snd f of
           [] \<Rightarrow> Inl MissingRepeatArgument
         | r # rs \<Rightarrow>
             (case cs of
                [] \<Rightarrow> parse_rx (fst f, repeat_op c r # rs) st True cs
              | d # ds \<Rightarrow>
                  if d = CHR ''?'' then parse_rx (fst f, repeat_op c r # rs) st True ds
                  else parse_rx (fst f, repeat_op c r # rs) st True cs))
      else if c = CHR 0x5C then
        (case cs of
           [] \<Rightarrow> Inl TrailingBackslash
         | d # ds \<Rightarrow>
             (case escape_atom d of
                Inl e \<Rightarrow> Inl e
              | Inr r \<Rightarrow> parse_rx (push r f) st False ds))
      else if c = CHR ''['' \<or> c = CHR '']'' \<or> c = CHR ''{'' \<or> c = CHR ''}''
              \<or> 128 \<le> (of_char c :: nat)
        then Inl Unsupported
      else parse_rx (push (plain_atom c) f) st False cs)"

text \<open>\<open>regexp.Compile\<close>; \<open>regexp.MustCompile\<close> panics where it returns an error.\<close>

definition Compile :: "string \<Rightarrow> rx_error + regex" where
  "Compile s = parse_rx ([], []) [] False s"

section \<open>Panics\<close>

datatype panic =
    NotCallable
  | FrozenCollection
  | ErrorCodeTooLow int
  | RegexpError rx_error
  | IndexOutOfRange
  | NilNext
  | NilPattern
  | SliceBounds
  | HandlerPanic

text \<open>\<open>MustBeCallable\<close> panics on a value that is not callable.\<close>

definition MustBeCallable :: "HandlerFunction \<Rightarrow> panic + unit" where
  "MustBeCallable h = (if IsCallable h then Inr () else Inl NotCallable)"

section \<open>The method matcher\<close>

text \<open>
  \<open>MethodMatcher.Match\<close>: an empty verb list accepts every request; otherwise the loop
  looks for a verb equal to the request's method, both upper-cased.
\<close>

fun method_loop :: "string list \<Rightarrow> string \<Rightarrow> bool" where
  "method_loop [] m = False"
| "method_loop (v # vs) m = (if ToUpper v = ToUpper m then True else method_loop vs m)"

definition MethodMatcher_Match :: "string list \<Rightarrow> string \<Rightarrow> bool" where
  "MethodMatcher_Match verbs m = (if length verbs = 0 then True else method_loop verbs m)"

section \<open>Routes\<close>

text \<open>
  \<open>Pattern\<close>, the route-variable regexp \<open>(?:\:)(\w+)(\?)?|(\(.+\)?)\<close>, is a constant
  of the source that is only ever used to search a path for all its matches. Its
  leftmost-first matches are computed directly: at a colon followed by a word
  character the first alternative takes the longest run of word characters and a
  \<open>?\<close> if one follows; at an opening parenthesis followed by a character other than
  newline the second alternative's greedy \<open>.+\<close> takes the rest of the line (the
  closing parenthesis is optional in \<open>Pattern\<close>, so nothing makes \<open>.+\<close> stop earlier).
  \<open>scan\<close> cuts a path into the bytes outside matches and the matches, each with its
  text (\<open>match[0]\<close>) and its first group (\<open>match[1]\<close>, empty for the second alternative).
\<close>

datatype piece = Text char | Hit string string

function scan :: "string \<Rightarrow> piece list" where
  "scan [] = []"
| "scan (c # cs) =
     (if c = CHR '':'' \<and> cs \<noteq> [] \<and> is_word_char (hd cs) then
        (case dropWhile is_word_char cs of
           [] \<Rightarrow> [Hit (c # takeWhile is_word_char cs) (takeWhile is_word_char cs)]
         | d # ds \<Rightarrow>
             if d = CHR ''?''
             then Hit (c # takeWhile is_word_char cs @ [d]) (takeWhile is_word_char cs) # scan ds
             else Hit (c # takeWhile is_word_char cs) (takeWhile is_word_char cs) # scan (d # ds))
      else if c = CHR ''('' \<and> cs \<noteq> [] \<and> hd cs \<noteq> CHR 0x0A then
        Hit (c # takeWhile (\<lambda>x. x \<noteq> CHR 0x0A) cs) []
          # scan (dropWhile (\<lambda>x. x \<noteq> CHR 0x0A) cs)
      else Text c # scan cs)"
  by pat_completeness auto
termination
proof (relation "measure length")
  show "wf (measure length)" by simp
next
  fix c :: char and cs ds :: string and d :: char
  assume "dropWhile is_word_char cs = d # ds"
  then have "length (d # ds) \<le> length cs"
    by (metis length_dropWhile_le)
  then show "(ds, c # cs) \<in> measure length" by simp
next
  fix c :: char and cs ds :: string and d :: char
  assume "dropWhile is_word_char cs = d # ds"
  then have "length (d # ds) \<le> length cs"
    by (metis length_dropWhile_le)
  then show "(d # ds, c # cs) \<in> measure length" by simp
next
  fix c :: char and cs :: string
  show "(dropWhile (\<lambda>x. x \<noteq> CHR 0x0A) cs, c # cs) \<in> measure length"
    by (simp add: length_dropWhile_le le_imp_less_Suc)
next
  fix c :: char and cs :: string
  show "(cs, c # cs) \<in> measure length" by simp
qed

text \<open>\<open>FindAllStringSubmatch(path, -1)\<close> for \<open>Pattern\<close>: the matches, left to right.\<close>

fun hits :: "piece list \<Rightarrow> (string \<times> string) list" where
  "hits [] = []"
| "hits (Text c # ps) = hits ps"
| "hits (Hit w n # ps) = (w, n) # hits ps"

definition FindAllStringSubmatch :: "string \<Rightarrow> (string \<times> string) list" where
  "FindAllStringSubmatch s = hits (scan s)"

text \<open>\<open>ReplaceAllStringFunc(path, f)\<close> for \<open>Pattern\<close>: every match replaced by \<open>f\<close> of its text.\<close>

fun render :: "(string \<Rightarrow> string) \<Rightarrow> piece list \<Rightarrow> string" where
  "render f [] = []"
| "render f (Text c # ps) = c # render f ps"
| "render f (Hit w n # ps) = f w @ render f ps"

definition ReplaceAllStringFunc :: "string \<Rightarrow> (string \<Rightarrow> string) \<Rightarrow> string" where
  "ReplaceAllStringFunc s f = render f (scan s)"

text \<open>\<open>regexp.MustCompile("\\w+").FindAllString(match, -1)\<close>: the maximal runs of word characters.\<close>

function FindAllWords :: "string \<Rightarrow> string list" where
  "FindAllWords [] = []"
| "FindAllWords (c # cs) =
     (if is_word_char c
      then (c # takeWhile is_word_char cs) # FindAllWords (dropWhile is_word_char cs)
      else FindAllWords cs)"
  by pat_completeness auto
termination
  by (relation "measure length") (auto simp: length_dropWhile_le le_imp_less_Suc)

text \<open>\<open>regexp.MustCompile("\\W+").ReplaceAllString(s, "_")\<close>: every maximal run of other bytes becomes one underscore.\<close>

function ReplaceAllNonWord :: "string \<Rightarrow> string" where
  "ReplaceAllNonWord [] = []"
| "ReplaceAllNonWord (c # cs) =
     (if is_word_char c then c # ReplaceAllNonWord cs
      else CHR ''_'' # ReplaceAllNonWord (dropWhile (\<lambda>x. \<not> is_word_char x) cs))"
  by pat_completeness auto
termination
  by (relation "measure length") (auto simp: length_dropWhile_le le_imp_less_Suc)

text \<open>\<open>fmt.Sprintf("%d", i)\<close> for an index, and \<open>fmt.Sprint\<close> of a string slice.\<close>

definition digit_char :: "nat \<Rightarrow> char" where
  "digit_char d = ''0123456789'' ! d"

function itoa :: "nat \<Rightarrow> string" where
  "itoa n = (if n < 10 then [digit_char n] else itoa (n div 10) @ [digit_char (n mod 10)])"
  by pat_completeness auto
termination
  by (relation "measure id") auto

fun join_space :: "string list \<Rightarrow> string" where
  "join_space [] = []"
| "join_space [x] = x"
| "join_space (x # xs) = x @ '' '' @ join_space xs"

definition Sprint :: "string list \<Rightarrow> string" where
  "Sprint xs = ''['' @ join_space xs @ '']''"

text \<open>The two matchers a frozen route carries, and the request they look at.\<close>

record request =
  Method :: string
  URL_Path :: string

datatype Matcher = PatternMatcher regex | MethodMatcher "string list"

datatype any_value = AnyValue nat

record route =
  methods :: "string list"
  pattern :: "regex option"
  path :: string
  handlerFunc :: HandlerFunction
  params :: "string list"
  frozen :: bool
  assertions :: "string \<rightharpoonup> string"
  attributes :: "string \<rightharpoonup> any_value"
  name :: string
  passthrough :: bool
  matchers :: "Matcher list"

definition NewRoute :: "string \<Rightarrow> route" where
  "NewRoute p =
     \<lparr> methods = [], pattern = None, path = p, handlerFunc = HOther, params = [],
       frozen = False, assertions = Map.empty, attributes = Map.empty, name = [],
       passthrough = False, matchers = [] \<rparr>"

definition IsFrozen :: "route \<Rightarrow> bool" where
  "IsFrozen r = frozen r"

definition SetName :: "string \<Rightarrow> route \<Rightarrow> route" where
  "SetName n r = (if IsFrozen r then r else r\<lparr>name := n\<rparr>)"

definition SetHandler :: "HandlerFunction \<Rightarrow> route \<Rightarrow> panic + route" where
  "SetHandler h r =
     (if IsFrozen r then Inr r
      else case MustBeCallable h of
        Inl e \<Rightarrow> Inl e
      | Inr _ \<Rightarrow> Inr (r\<lparr>handlerFunc := h\<rparr>))"

definition SetMethods :: "string list \<Rightarrow> route \<Rightarrow> route" where
  "SetMethods ms r = (if IsFrozen r = True then r else r\<lparr>methods := ms\<rparr>)"

text \<open>
  \<open>Assert\<close> compiles \<open>"(" + pattern + ")"\<close> only to panic on a pattern that is not
  a regular expression, then stores the parenthesised text.
\<close>

definition Assert :: "string \<Rightarrow> string \<Rightarrow> route \<Rightarrow> panic + route" where
  "Assert parameterName pat r =
     (if IsFrozen r then Inr r
      else case Compile (''('' @ pat @ '')'') of
        Inl e \<Rightarrow> Inl (RegexpError e)
      | Inr _ \<Rightarrow> Inr (r\<lparr>assertions := (assertions r)(parameterName \<mapsto> ''('' @ pat @ '')'')\<rparr>))"

definition SetAttribute :: "string \<Rightarrow> any_value \<Rightarrow> route \<Rightarrow> route" where
  "SetAttribute attr v r = r\<lparr>attributes := (attributes r)(attr \<mapsto> v)\<rparr>"

definition Attribute :: "string \<Rightarrow> route \<Rightarrow> any_value option" where
  "Attribute attr r = attributes r attr"

text \<open>A Go map of strings answers a missing key with the empty string.\<close>

definition assertion_of :: "route \<Rightarrow> string \<Rightarrow> string" where
  "assertion_of r k = (case assertions r k of None \<Rightarrow> [] | Some a \<Rightarrow> a)"

definition DefaultParamPattern :: string where
  "DefaultParamPattern = ''('' @ [CHR 0x5C] @ ''w+)''"

text \<open>The closure \<open>freeze\<close> passes to \<open>ReplaceAllStringFunc\<close>.\<close>

definition replace_match :: "route \<Rightarrow> string \<Rightarrow> string" where
  "replace_match r m =
     (let ps = FindAllWords m in
      if length ps > 0 \<and> assertion_of r (hd ps) \<noteq> [] then
        (if HasSuffix m ''?'' then ''?'' @ assertion_of r (hd ps) @ ''?''
         else assertion_of r (hd ps))
      else if m \<noteq> [] \<and> hd m = CHR ''('' \<and> last m = CHR '')'' then m
      else if HasSuffix m ''?'' then ''?'' @ DefaultParamPattern @ ''?''
      else DefaultParamPattern)"

text \<open>The loop of \<open>freeze\<close> over the matches, \<open>i\<close> being the index of the match.\<close>

fun param_names :: "nat \<Rightarrow> (string \<times> string) list \<Rightarrow> string list" where
  "param_names i [] = []"
| "param_names i (m # ms) =
     (if fst m \<noteq> [] \<and> hd (fst m) = CHR '':'' then snd m else itoa i) # param_names (Suc i) ms"

definition string_pattern :: "route \<Rightarrow> string" where
  "string_pattern r =
     (let sp = ReplaceAllStringFunc (path r) (replace_match r);
          anchored = (if HasSuffix sp ''/'' then ''^'' @ sp @ ''?'' else ''^'' @ sp @ ''/?'')
      in if \<not> passthrough r then anchored @ ''$'' else anchored)"

definition freeze :: "route \<Rightarrow> panic + route" where
  "freeze r =
     (if IsFrozen r then Inr r
      else
        let ps = params r @ param_names 0 (FindAllStringSubmatch (path r)) in
        case Compile (string_pattern r) of
          Inl e \<Rightarrow> Inl (RegexpError e)
        | Inr re \<Rightarrow>
            Inr (r\<lparr> params := ps,
                    pattern := Some re,
                    name := (if name r = [] then
                               ReplaceAllNonWord (path r @ ''_'' @ Sprint (methods r))
                             else name r),
                    matchers := [PatternMatcher re, MethodMatcher (methods r)],
                    frozen := True \<rparr>))"

section \<open>Route collections\<close>

text \<open>
  A \<open>ControllerCollection\<close> holds pointers to its routes and to its child collections.
  It is modelled as a tree value: a collection owns its routes and its children, no
  route or collection is shared between two places or mounted below itself. An
  operation that hands out a pointer to a route it has just appended (\<open>All\<close> and its
  wrappers) returns the new collection together with that route, which is the last
  element of \<open>Routes\<close>; what the source then changes through the pointer is changed
  in both.
\<close>

datatype ControllerCollection =
  CC (Routes: "route list") (prefix: string) (cfrozen: bool)
     (Children: "ControllerCollection list") (hasParent: bool)

definition NewControllerCollection :: ControllerCollection where
  "NewControllerCollection = CC [] [] False [] False"

definition set_Routes :: "route list \<Rightarrow> ControllerCollection \<Rightarrow> ControllerCollection" where
  "set_Routes rs rc = CC rs (prefix rc) (cfrozen rc) (Children rc) (hasParent rc)"

definition AddRoute :: "route \<Rightarrow> ControllerCollection \<Rightarrow> ControllerCollection" where
  "AddRoute r rc = set_Routes (Routes rc @ [r]) rc"

definition mustNotBeFrozen :: "ControllerCollection \<Rightarrow> panic + unit" where
  "mustNotBeFrozen rc = (if cfrozen rc then Inl FrozenCollection else Inr ())"

text \<open>
  \<open>setPrefix\<close>: a prefix that is not empty is made to start with a slash, and a
  final slash is made optional.
\<close>

definition normalize_prefix :: "string \<Rightarrow> string" where
  "normalize_prefix p =
     (if p \<noteq> [] then
        (let p1 = (if hd p \<noteq> CHR ''/'' then ''/'' @ p else p) in
         if HasSuffix p1 ''/'' then p1 @ ''?'' else p1)
      else p)"

definition setPrefix :: "string \<Rightarrow> ControllerCollection \<Rightarrow> panic + ControllerCollection" where
  "setPrefix p rc =
     (case mustNotBeFrozen rc of
        Inl e \<Rightarrow> Inl e
      | Inr _ \<Rightarrow> Inr (CC (Routes rc) (normalize_prefix p) (cfrozen rc) (Children rc) (hasParent rc)))"

definition IsFrozen_cc :: "ControllerCollection \<Rightarrow> bool" where
  "IsFrozen_cc rc = cfrozen rc"

text \<open>The first loop of \<open>Flush\<close>: every own route gets the prefix and is frozen.\<close>

fun freeze_routes :: "string \<Rightarrow> route list \<Rightarrow> panic + route list" where
  "freeze_routes pfx [] = Inr []"
| "freeze_routes pfx (r # rs) =
     (case freeze (r\<lparr>path := pfx @ path r\<rparr>) of
        Inl e \<Rightarrow> Inl e
      | Inr r' \<Rightarrow>
          (case freeze_routes pfx rs of
             Inl e \<Rightarrow> Inl e
           | Inr rs' \<Rightarrow> Inr (r' # rs')))"

fun cc_size :: "ControllerCollection \<Rightarrow> nat" where
  "cc_size (CC rs p f cs h) = Suc (sum_list (map cc_size cs))"

text \<open>
  \<open>Flush\<close>, and its loop over the children: each child gets the prefix
  \<open>rc.prefix + child.prefix\<close> through \<open>setPrefix\<close> (which panics on a frozen child), is
  flushed, hands its routes to the parent and is left with none. \<open>flush_children\<close>
  returns the routes handed over and the children as they are afterwards.
\<close>

function Flush :: "ControllerCollection \<Rightarrow> panic + ControllerCollection"
  and flush_children ::
    "string \<Rightarrow> ControllerCollection list \<Rightarrow> panic + (route list \<times> ControllerCollection list)"
where
  "Flush rc =
     (if IsFrozen_cc rc = True then Inr rc
      else case freeze_routes (prefix rc) (Routes rc) of
        Inl e \<Rightarrow> Inl e
      | Inr own \<Rightarrow>
          (case flush_children (prefix rc) (Children rc) of
             Inl e \<Rightarrow> Inl e
           | Inr (moved, cs) \<Rightarrow> Inr (CC (own @ moved) (prefix rc) True cs (hasParent rc))))"
| "flush_children pfx [] = Inr ([], [])"
| "flush_children pfx (c # cs) =
     (case setPrefix (pfx @ prefix c) c of
        Inl e \<Rightarrow> Inl e
      | Inr c1 \<Rightarrow>
          (case Flush c1 of
             Inl e \<Rightarrow> Inl e
           | Inr c2 \<Rightarrow>
               (case flush_children pfx cs of
                  Inl e \<Rightarrow> Inl e
                | Inr (moved, cs') \<Rightarrow> Inr (Routes c2 @ moved, set_Routes [] c2 # cs'))))"
  by pat_completeness auto
termination
proof (relation "measure (\<lambda>x. case x of
          Inl rc \<Rightarrow> 2 * cc_size rc
        | Inr (pfx, cs) \<Rightarrow> Suc (2 * sum_list (map cc_size cs)))")
  show "wf (measure (\<lambda>x. case x of
          Inl rc \<Rightarrow> 2 * cc_size rc
        | Inr (pfx, cs) \<Rightarrow> Suc (2 * sum_list (map cc_size cs))))"
    by simp
next
  fix rc :: ControllerCollection and own :: "route list"
  show "(Inr (prefix rc, Children rc), Inl rc) \<in> measure (\<lambda>x. case x of
          Inl rc \<Rightarrow> 2 * cc_size rc
        | Inr (pfx, cs) \<Rightarrow> Suc (2 * sum_list (map cc_size cs)))"
    by (cases rc) simp
next
  fix pfx :: string and c c1 :: ControllerCollection and cs :: "ControllerCollection list"
  assume "setPrefix (pfx @ prefix c) c = Inr c1"
  then have "cc_size c1 = cc_size c"
    by (cases c) (auto simp: setPrefix_def mustNotBeFrozen_def split: if_splits)
  then show "(Inl c1, Inr (pfx, c # cs)) \<in> measure (\<lambda>x. case x of
          Inl rc \<Rightarrow> 2 * cc_size rc
        | Inr (pfx, cs) \<Rightarrow> Suc (2 * sum_list (map cc_size cs)))"
    by simp
next
  fix pfx :: string and c :: ControllerCollection and cs :: "ControllerCollection list"
  show "(Inr (pfx, cs), Inr (pfx, c # cs)) \<in> measure (\<lambda>x. case x of
          Inl rc \<Rightarrow> 2 * cc_size rc
        | Inr (pfx, cs) \<Rightarrow> Suc (2 * sum_list (map cc_size cs)))"
    by (cases c) simp
qed

text \<open>\<open>All\<close> and the wrappers that change the new route through the pointer \<open>All\<close> returns.\<close>

definition All ::
  "string \<Rightarrow> HandlerFunction \<Rightarrow> ControllerCollection \<Rightarrow> panic + (ControllerCollection \<times> route)" where
  "All p h rc =
     (case mustNotBeFrozen rc of
        Inl e \<Rightarrow> Inl e
      | Inr _ \<Rightarrow>
          (case SetHandler h (NewRoute p) of
             Inl e \<Rightarrow> Inl e
           | Inr r \<Rightarrow> Inr (set_Routes (Routes rc @ [r]) rc, r)))"

definition via_pointer ::
  "(route \<Rightarrow> route) \<Rightarrow> ControllerCollection \<times> route \<Rightarrow> ControllerCollection \<times> route" where
  "via_pointer f x = (set_Routes (butlast (Routes (fst x)) @ [f (snd x)]) (fst x), f (snd x))"

definition with_methods ::
  "string list \<Rightarrow> string \<Rightarrow> HandlerFunction \<Rightarrow> ControllerCollection
     \<Rightarrow> panic + (ControllerCollection \<times> route)" where
  "with_methods ms p h rc =
     (case All p h rc of
        Inl e \<Rightarrow> Inl e
      | Inr x \<Rightarrow> Inr (via_pointer (SetMethods ms) x))"

definition Get ::
  "string \<Rightarrow> HandlerFunction \<Rightarrow> ControllerCollection \<Rightarrow> panic + (ControllerCollection \<times> route)" where
  "Get p h rc = with_methods [''GET'', ''HEAD''] p h rc"

definition Post ::
  "string \<Rightarrow> HandlerFunction \<Rightarrow> ControllerCollection \<Rightarrow> panic + (ControllerCollection \<times> route)" where
  "Post p h rc = with_methods [''POST''] p h rc"

definition Put ::
  "string \<Rightarrow> HandlerFunction \<Rightarrow> ControllerCollection \<Rightarrow> panic + (ControllerCollection \<times> route)" where
  "Put p h rc = with_methods [''PUT''] p h rc"

definition Delete ::
  "string \<Rightarrow> HandlerFunction \<Rightarrow> ControllerCollection \<Rightarrow> panic + (ControllerCollection \<times> route)" where
  "Delete p h rc = with_methods [''DELETE''] p h rc"

definition Use ::
  "string \<Rightarrow> HandlerFunction \<Rightarrow> ControllerCollection \<Rightarrow> panic + (ControllerCollection \<times> route)" where
  "Use p h rc =
     (case All p h rc of
        Inl e \<Rightarrow> Inl e
      | Inr x \<Rightarrow> Inr (via_pointer (\<lambda>r. r\<lparr>passthrough := True\<rparr>) x))"

text \<open>
  \<open>Mount\<close>: a child that has no parent yet is appended to \<open>Children\<close>, gets its prefix
  (through \<open>setPrefix\<close>, which panics if the child is frozen) and is marked as having a
  parent. The child as it is afterwards is the last element of \<open>Children\<close>.
\<close>

definition Mount ::
  "string \<Rightarrow> ControllerCollection \<Rightarrow> ControllerCollection \<Rightarrow> panic + ControllerCollection" where
  "Mount p child rc =
     (if \<not> hasParent child then
        (case setPrefix p child of
           Inl e \<Rightarrow> Inl e
         | Inr c \<Rightarrow>
             Inr (CC (Routes rc) (prefix rc) (cfrozen rc)
                    (Children rc @ [CC (Routes c) (prefix c) (cfrozen c) (Children c) True])
                    (hasParent rc)))
      else Inr rc)"

section \<open>Matching a request\<close>

fun Match :: "Matcher \<Rightarrow> request \<Rightarrow> bool" where
  "Match (PatternMatcher re) req = MatchString re (URL_Path req)"
| "Match (MethodMatcher verbs) req = MethodMatcher_Match verbs (Method req)"

text \<open>\<open>RequestMatcher.MatchAll\<close>: the routes all of whose matchers accept, in table order.\<close>

definition MatchAll :: "ControllerCollection \<Rightarrow> request \<Rightarrow> route list" where
  "MatchAll rc req = filter (\<lambda>r. list_all (\<lambda>m. Match m req) (matchers r)) (Routes rc)"

section \<open>The application and its error handlers\<close>

text \<open>
  Of \<open>Micro\<close> the model keeps the embedded collection, the boot flag and the error
  handlers; the event emitter and the injector are collaborators outside the router.
  A Go map answers a missing key with nil, the value \<open>HNil\<close>.
\<close>

record Micro =
  collection :: ControllerCollection
  booted :: bool
  errorHandlers :: "int \<rightharpoonup> HandlerFunction"

definition New :: Micro where
  "New = \<lparr> collection = NewControllerCollection, booted = False, errorHandlers = Map.empty \<rparr>"

definition Booted :: "Micro \<Rightarrow> bool" where
  "Booted e = booted e"

definition Boot :: "Micro \<Rightarrow> panic + Micro" where
  "Boot e =
     (if \<not> Booted e then
        (case Flush (collection e) of
           Inl p \<Rightarrow> Inl p
         | Inr rc \<Rightarrow> Inr (e\<lparr>collection := rc, booted := True\<rparr>))
      else Inr e)"

definition Error :: "int \<Rightarrow> HandlerFunction \<Rightarrow> Micro \<Rightarrow> panic + Micro" where
  "Error errorCode h e =
     (if Booted e then Inr e
      else if errorCode < 400 then Inl (ErrorCodeTooLow errorCode)
      else Inr (e\<lparr>errorHandlers := (errorHandlers e)(errorCode \<mapsto> h)\<rparr>))"

definition handler_for :: "Micro \<Rightarrow> int \<Rightarrow> HandlerFunction" where
  "handler_for e c = (case errorHandlers e c of None \<Rightarrow> HNil | Some h \<Rightarrow> h)"

section \<open>The dispatch chain\<close>

text \<open>
  What \<open>ServeHTTP\<close> sets up for one request and the closure \<open>next\<close> works on: the
  status-tracking response writer (\<open>code\<close>, \<open>writtenLength\<close>, and \<open>wire\<close>, the calls it
  has passed on to the writer it wraps), the remaining matches, the request variables
  of the context, and whether the context and the injector already hold \<open>next\<close> (they do
  once the first matched route has been taken). \<open>calls\<close> is a record kept for the
  proofs only: which handler was applied, or which default body was written, in order.
  \<open>writtenLength\<close> is a Go \<open>int\<close> that only ever grows by the length of a body; it is
  a natural number here.
\<close>

datatype call = RouteCall route | ErrorCall int | NotFoundCall | DefaultBody int

record serving =
  code :: int
  writtenLength :: nat
  wire :: "action list"
  matches :: "route list"
  RequestVars :: "string \<rightharpoonup> string"
  next_set :: bool
  calls :: "call list"

text \<open>
  Two library functions the closure calls are parameters of the model:
  \<open>Regexp.FindStringSubmatch\<close> (the whole match and the text of each group) and
  \<open>http.StatusText\<close>.
\<close>

record env =
  FindStringSubmatch :: "regex \<Rightarrow> string \<Rightarrow> string list"
  StatusText :: "int \<Rightarrow> string"

datatype fault = Panic panic | OutOfFuel

text \<open>\<open>ResponseWriterWithCode.WriteHeader\<close> and \<open>ResponseWriterWithCode.Write\<close>.\<close>

definition rw_WriteHeader :: "int \<Rightarrow> serving \<Rightarrow> serving" where
  "rw_WriteHeader c st = st\<lparr>code := c, wire := wire st @ [WriteHeader c]\<rparr>"

definition rw_Write :: "string \<Rightarrow> serving \<Rightarrow> serving" where
  "rw_Write b st = st\<lparr>writtenLength := writtenLength st + length b, wire := wire st @ [Write b]\<rparr>"

text \<open>\<open>http.Error(rw, text, code)\<close>: the status, then the text and a newline as the body.\<close>

definition http_Error :: "string \<Rightarrow> int \<Rightarrow> serving \<Rightarrow> serving" where
  "http_Error txt c st = rw_Write (txt @ [CHR 0x0A]) (rw_WriteHeader c st)"

text \<open>
  The loop of \<open>next\<close> that stores the groups of the match under the route's parameter
  names; \<open>match.params[i]\<close> panics when there are more groups than names.
\<close>

fun bind_vars ::
  "string list \<Rightarrow> nat \<Rightarrow> string list \<Rightarrow> (string \<rightharpoonup> string) \<Rightarrow> panic + (string \<rightharpoonup> string)" where
  "bind_vars ps i [] vars = Inr vars"
| "bind_vars ps i (v # vs) vars =
     (if i < length ps then bind_vars ps (Suc i) vs (vars(ps ! i \<mapsto> v))
      else Inl IndexOutOfRange)"

text \<open>
  Modelled from the spec: the injector's \<open>MustApply\<close>, which is not among the sources.
  It invokes the callable it is given and panics when it cannot; invoking a function
  value is running its calls (\<open>run\<close>). A handler reaches \<open>next\<close> through the context or
  the injector, both of which hold it only after the first matched route was taken.

  A handler may call \<open>next\<close>, which applies further handlers, and an error handler that
  calls \<open>next\<close> without changing the status is applied again by it: the recursion need
  not end. The four functions therefore take fuel, which one call of \<open>next\<close> consumes.
\<close>

fun run :: "nat \<Rightarrow> env \<Rightarrow> Micro \<Rightarrow> request \<Rightarrow> action list \<Rightarrow> serving \<Rightarrow> fault + serving"
  and MustApply :: "nat \<Rightarrow> env \<Rightarrow> Micro \<Rightarrow> request \<Rightarrow> HandlerFunction \<Rightarrow> serving \<Rightarrow> fault + serving"
  and hasErrorCode :: "nat \<Rightarrow> env \<Rightarrow> Micro \<Rightarrow> request \<Rightarrow> serving \<Rightarrow> fault + (bool \<times> serving)"
  and micro_next :: "nat \<Rightarrow> env \<Rightarrow> Micro \<Rightarrow> request \<Rightarrow> serving \<Rightarrow> fault + serving"
where
  "run n env e req [] st = Inr st"
| "run n env e req (a # as) st =
     (case a of
        WriteHeader c \<Rightarrow> run n env e req as (rw_WriteHeader c st)
      | Write b \<Rightarrow> run n env e req as (rw_Write b st)
      | CallNext \<Rightarrow>
          (if next_set st then
             (case micro_next n env e req st of
                Inl f \<Rightarrow> Inl f
              | Inr st' \<Rightarrow> run n env e req as st')
           else Inl (Panic NilNext))
      | Fail \<Rightarrow> Inl (Panic HandlerPanic))"
| "MustApply n env e req h st =
     (case h of
        HFunc as \<Rightarrow> run n env e req as st
      | HFuncPtr as \<Rightarrow> run n env e req as st
      | _ \<Rightarrow> Inl (Panic NotCallable))"
| "hasErrorCode n env e req st =
     (if code st > 399 then
        (if handler_for e (code st) \<noteq> HNil \<and> writtenLength st = 0 then
           (case MustApply n env e req (handler_for e (code st))
                   (st\<lparr>calls := calls st @ [ErrorCall (code st)]\<rparr>) of
              Inl f \<Rightarrow> Inl f
            | Inr st' \<Rightarrow> Inr (True, st'))
         else Inr (True, http_Error (StatusText env (code st)) (code st)
                           (st\<lparr>calls := calls st @ [DefaultBody (code st)]\<rparr>)))
      else Inr (False, st))"
| "micro_next 0 env e req st = Inl OutOfFuel"
| "micro_next (Suc n) env e req st =
     (case hasErrorCode n env e req st of
        Inl f \<Rightarrow> Inl f
      | Inr (stop, st1) \<Rightarrow>
          if stop then Inr st1
          else
            (case matches st1 of
               [] \<Rightarrow> MustApply n env e req (handler_for e 404)
                       (st1\<lparr>calls := calls st1 @ [NotFoundCall]\<rparr>)
             | m # ms \<Rightarrow>
                 (case pattern m of
                    None \<Rightarrow> Inl (Panic NilPattern)
                  | Some re \<Rightarrow>
                      (case FindStringSubmatch env re (URL_Path req) of
                         [] \<Rightarrow> Inl (Panic SliceBounds)
                       | whole # groups \<Rightarrow>
                           (case bind_vars (params m) 0 groups (RequestVars st1) of
                              Inl p \<Rightarrow> Inl (Panic p)
                            | Inr vars \<Rightarrow>
                                MustApply n env e req (handlerFunc m)
                                  (st1\<lparr>matches := ms, RequestVars := vars, next_set := True,
                                        calls := calls st1 @ [RouteCall m]\<rparr>))))))"

text \<open>The state in which \<open>ServeHTTP\<close> calls \<open>next\<close> for the first time.\<close>

definition first_serving :: "route list \<Rightarrow> serving" where
  "first_serving ms =
     \<lparr> code = 0, writtenLength = 0, wire = [], matches = ms, RequestVars = Map.empty,
       next_set = False, calls = [] \<rparr>"

text \<open>The default handlers \<open>InternalServerErrorHandler\<close> and \<open>NotFoundErrorHandler\<close>.\<close>

definition InternalServerErrorHandler :: "env \<Rightarrow> HandlerFunction" where
  "InternalServerErrorHandler env = HFunc [Write (StatusText env 500)]"

definition NotFoundErrorHandler :: HandlerFunction where
  "NotFoundErrorHandler = HFunc [WriteHeader 404, Write (''404 page not found'' @ [CHR 0x0A])]"

section \<open>Notions used in the statements\<close>

text \<open>
  The characters that Go's regexp syntax reads as operators, and the ordinary ones:
  ASCII characters that stand for themselves in a pattern.
\<close>

definition meta_char :: "char \<Rightarrow> bool" where
  "meta_char c = (c \<in> set (CHR 0x5C # ''.+*?()|[]{}^$''))"

definition ordinary :: "char \<Rightarrow> bool" where
  "ordinary c = (\<not> meta_char c \<and> (of_char c :: nat) < 128)"

text \<open>
  What a match of the route-variable pattern looks like: a colon, a name of word
  characters and perhaps a question mark; or an opening parenthesis and the rest of
  the line.
\<close>

definition named_hit :: "string \<times> string \<Rightarrow> bool" where
  "named_hit m = (snd m \<noteq> [] \<and> list_all is_word_char (snd m)
      \<and> (fst m = CHR '':'' # snd m \<or> fst m = CHR '':'' # snd m @ ''?''))"

definition raw_hit :: "string \<times> string \<Rightarrow> bool" where
  "raw_hit m = (snd m = [] \<and> fst m \<noteq> [] \<and> hd (fst m) = CHR ''('' \<and> tl (fst m) \<noteq> []
      \<and> CHR 0x0A \<notin> set (tl (fst m)))"

text \<open>
  The group the default parameter pattern \<open>(\w+)\<close> compiles to, and a notion for the
  proofs about matching: read from the text \<open>t\<close>, the items \<open>rs\<close> in sequence can
  match a prefix of \<open>t\<close> that leaves \<open>u\<close>, wherever in the text \<open>t\<close> starts.
\<close>

definition word_group :: regex where
  "word_group = Capture (mk_cat [Plus (CharClass False CWord)])"

definition can_end :: "regex list \<Rightarrow> string \<Rightarrow> string \<Rightarrow> bool" where
  "can_end rs t u = (\<forall>b. \<exists>b'. (b', u) \<in> set (rx_ends (mk_cat rs) (b, t)))"

text \<open>
  The flattened table as the spec describes it: a table's own routes with its effective
  prefix put before their paths, followed by the routes of its children in mount order,
  each child flattened the same way under the effective prefix that is the parent's
  effective prefix followed by the child's own. \<open>flat_routes\<close> lists the routes before
  they are frozen.
\<close>

fun flat_routes :: "string \<Rightarrow> ControllerCollection \<Rightarrow> route list" where
  "flat_routes pfx (CC rs p f cs h) =
     map (\<lambda>r. r\<lparr>path := pfx @ path r\<rparr>) rs @ concat (map (\<lambda>c. flat_routes (pfx @ prefix c) c) cs)"







section \<open>Properties\<close>

subsection \<open>Evaluation and small facts\<close>

lemmas rx_defs = Compile_def parse_rx.simps push_def close_frame_def mk_cat_def escape_atom_def
  repeat_op_def plain_atom_def is_alnum_def is_digit_def is_upper_def is_lower_def
  is_word_char_def

lemmas freeze_defs = freeze_def IsFrozen_def string_pattern_def ReplaceAllStringFunc_def
  FindAllStringSubmatch_def replace_match_def HasSuffix_def DefaultParamPattern_def
  assertion_of_def NewRoute_def Sprint_def scan.simps FindAllWords.simps

lemma Ex_Not [simp]: "Ex Not"
  by auto

lemma method_loop_iff: "method_loop vs m \<longleftrightarrow> ToUpper m \<in> ToUpper ` set vs"
  by (induction vs) auto

lemma MethodMatcher_Match_iff:
  "MethodMatcher_Match vs m \<longleftrightarrow> vs = [] \<or> ToUpper m \<in> ToUpper ` set vs"
  by (simp add: MethodMatcher_Match_def method_loop_iff)

lemma ToUpper_GET: "ToUpper ''GET'' = ''GET''" "ToUpper ''HEAD'' = ''HEAD''"
  by (simp_all add: ToUpper_def upper_char_def is_lower_def)

lemma freeze_fields:
  assumes "freeze r = Inr r'" "\<not> frozen r"
  shows "methods r' = methods r"
    and "\<exists>re. pattern r' = Some re \<and> matchers r' = [PatternMatcher re, MethodMatcher (methods r)]"
    and "frozen r'"
  using assms by (auto simp: freeze_def IsFrozen_def Let_def split: sum.splits)

lemma All_result:
  assumes "All p h rc = Inr (rc', r)"
  shows "r = (NewRoute p)\<lparr>handlerFunc := h\<rparr>" and "Routes rc' = Routes rc @ [r]"
    and "\<not> cfrozen rc" and "IsCallable h"
  using assms
  by (auto simp: All_def mustNotBeFrozen_def SetHandler_def MustBeCallable_def IsFrozen_def
      NewRoute_def set_Routes_def split: if_splits sum.splits)

subsection \<open>Compiling and matching literal text\<close>

lemma ordinary_parse_step:
  assumes "ordinary c"
  shows "parse_rx f st lr (c # cs) = parse_rx (fst f, Literal c # snd f) st False cs"
  using assms by (simp add: ordinary_def meta_char_def push_def plain_atom_def)

declare parse_rx.simps [simp del]

lemma parse_literals:
  assumes "list_all ordinary q" "q \<noteq> []"
  shows "parse_rx f st lr (q @ rest) = parse_rx (fst f, rev (map Literal q) @ snd f) st False rest"
  using assms
proof (induction q arbitrary: f lr)
  case Nil
  then show ?case by simp
next
  case (Cons c q)
  show ?case
  proof (cases "q = []")
    case True
    with Cons.prems show ?thesis by (simp add: ordinary_parse_step)
  next
    case False
    with Cons show ?thesis by (simp add: ordinary_parse_step)
  qed
qed

lemma parse_literals':
  assumes "list_all ordinary q"
  shows "parse_rx f st False (q @ rest) = parse_rx (fst f, rev (map Literal q) @ snd f) st False rest"
  using parse_literals [OF assms, of f st False rest] by (cases "q = []") auto

lemma parse_tail_dollar:
  "parse_rx (a, its) [] False ''/?$'' = Inr (mk_alt (rev (mk_cat (rev its @ [Quest (Literal CHR ''/''), EndText]) # a)))"
  by (simp add: parse_rx.simps push_def plain_atom_def repeat_op_def close_frame_def)

lemma parse_tail_open:
  "parse_rx (a, its) [] False ''/?'' = Inr (mk_alt (rev (mk_cat (rev its @ [Quest (Literal CHR ''/'')]) # a)))"
  by (simp add: parse_rx.simps push_def plain_atom_def repeat_op_def close_frame_def)

lemma Compile_static:
  assumes "list_all ordinary q"
  shows "Compile (''^'' @ q @ ''/?$'') = Inr (mk_cat (BeginText # map Literal q @ [Quest (Literal CHR ''/''), EndText]))"
    and "Compile (''^'' @ q @ ''/?'') = Inr (mk_cat (BeginText # map Literal q @ [Quest (Literal CHR ''/'')]))"
proof -
  have "parse_rx ([], []) [] False (CHR ''^'' # q @ rest) = parse_rx ([], rev (map Literal q) @ [BeginText]) [] False rest" for rest
    using parse_literals' [OF assms, of "([], [BeginText])" "[]" rest]
    by (simp add: parse_rx.simps(2) [of _ _ _ "CHR ''^''"] push_def plain_atom_def)
  then show "Compile (''^'' @ q @ ''/?$'') = Inr (mk_cat (BeginText # map Literal q @ [Quest (Literal CHR ''/''), EndText]))"
    and "Compile (''^'' @ q @ ''/?'') = Inr (mk_cat (BeginText # map Literal q @ [Quest (Literal CHR ''/'')]))"
    by (simp_all add: Compile_def parse_tail_dollar parse_tail_open)
qed

declare scan.simps [simp del]


lemma rx_ends_mk_cat_Nil [simp]: "rx_ends (mk_cat []) p = [p]"
  by (simp add: mk_cat_def)

lemma rx_ends_mk_cat_Cons [simp]:
  "rx_ends (mk_cat (r # rs)) p = concat (map (rx_ends (mk_cat rs)) (rx_ends r p))"
  by (simp add: mk_cat_def)

lemma rx_ends_literals:
  "rx_ends (mk_cat (map Literal q @ rs)) (b, t) =
     (if take (length q) t = q then rx_ends (mk_cat rs) (b \<and> q = [], drop (length q) t) else [])"
proof (induction q arbitrary: b t)
  case Nil
  then show ?case by simp
next
  case (Cons c q)
  show ?case
  proof (cases t)
    case Nil
    then show ?thesis by simp
  next
    case (Cons x xs)
    with Cons.IH [of False xs] show ?thesis by simp
  qed
qed

lemma tail_slash_end:
  "rx_ends (mk_cat [Quest (Literal CHR ''/''), EndText]) (b, u) \<noteq> [] \<longleftrightarrow> u = [] \<or> u = ''/''"
  by (cases u) (auto split: list.splits)

lemma not_at_start:
  "rx_ends (mk_cat (BeginText # rs)) (False, t) = []"
  by simp

lemma MatchString_anchored:
  "MatchString (mk_cat (BeginText # rs)) s \<longleftrightarrow> rx_ends (mk_cat rs) (True, s) \<noteq> []"
proof -
  have "\<not> list_ex (\<lambda>p. rx_ends (mk_cat (BeginText # rs)) p \<noteq> []) (map (Pair False) ts)" for ts
    by (induction ts) simp_all
  then show ?thesis
    by (simp add: MatchString_def starts_def)
qed

lemma MatchString_static:
  "MatchString (mk_cat (BeginText # map Literal q @ [Quest (Literal CHR ''/''), EndText])) s
     \<longleftrightarrow> s = q \<or> s = q @ ''/''"
proof -
  let ?tl = "[Quest (Literal CHR ''/''), EndText]"
  have 1: "MatchString (mk_cat (BeginText # map Literal q @ ?tl)) s
     \<longleftrightarrow> rx_ends (mk_cat (map Literal q @ ?tl)) (True, s) \<noteq> []"
    by (rule MatchString_anchored)
  have 2: "rx_ends (mk_cat (map Literal q @ ?tl)) (True, s) =
     (if take (length q) s = q then rx_ends (mk_cat ?tl) (q = [], drop (length q) s) else [])"
    using rx_ends_literals [of q ?tl True s] by simp
  have 3: "rx_ends (mk_cat ?tl) (q = [], drop (length q) s) \<noteq> []
     \<longleftrightarrow> drop (length q) s = [] \<or> drop (length q) s = ''/''"
    by (rule tail_slash_end)
  have "MatchString (mk_cat (BeginText # map Literal q @ ?tl)) s
     \<longleftrightarrow> take (length q) s = q \<and> (drop (length q) s = [] \<or> drop (length q) s = ''/'')"
  proof (cases "take (length q) s = q")
    case True
    with 1 2 3 show ?thesis by (simp only: if_True simp_thms)
  next
    case False
    with 1 2 show ?thesis by (simp only: if_False simp_thms)
  qed
  also have "\<dots> \<longleftrightarrow> s = q \<or> s = q @ ''/''"
  proof
    assume a: "take (length q) s = q \<and> (drop (length q) s = [] \<or> drop (length q) s = ''/'')"
    have "s = take (length q) s @ drop (length q) s" by simp
    with a have "s = q @ drop (length q) s" by simp
    with a show "s = q \<or> s = q @ ''/''" by auto
  next
    assume "s = q \<or> s = q @ ''/''"
    then show "take (length q) s = q \<and> (drop (length q) s = [] \<or> drop (length q) s = ''/'')"
      by auto
  qed
  finally show ?thesis .
qed

lemma scan_no_hits:
  "hits (scan p) = [] \<Longrightarrow> render f (scan p) = p"
proof (induction p rule: scan.induct)
  case 1
  then show ?case by (simp add: scan.simps)
next
  case (2 c cs)
  from "2.prems" have t: "scan (c # cs) = Text c # scan cs"
    by (subst scan.simps, subst (asm) scan.simps) (auto split: if_splits list.splits)
  with "2.prems" have "hits (scan cs) = []" by simp
  moreover from "2.prems" have "\<not> (c = CHR '':'' \<and> cs \<noteq> [] \<and> is_word_char (hd cs))"
    and "\<not> (c = CHR ''('' \<and> cs \<noteq> [] \<and> hd cs \<noteq> CHR 0x0A)"
    by (subst (asm) scan.simps, auto split: if_splits list.splits)+
  ultimately have "render f (scan cs) = cs" using "2.IH"(4) by blast
  with t show ?case by simp
qed

lemma scan_spells_path: "render (\<lambda>w. w) (scan p) = p"
proof (induction p rule: scan.induct)
  case 1
  then show ?case by (simp add: scan.simps)
next
  case (2 c cs)
  show ?case
  proof (cases "c = CHR '':'' \<and> cs \<noteq> [] \<and> is_word_char (hd cs)")
    case True
    note colon = this
    show ?thesis
    proof (cases "dropWhile is_word_char cs")
      case Nil
      with colon have "scan (c # cs) = [Hit (c # takeWhile is_word_char cs) (takeWhile is_word_char cs)]"
        by (subst scan.simps) (simp del: dropWhile_eq_Nil_conv)
      moreover from Nil have "takeWhile is_word_char cs = cs"
        by (metis append_Nil2 takeWhile_dropWhile_id)
      ultimately show ?thesis by simp
    next
      case (Cons d ds)
      have split: "cs = takeWhile is_word_char cs @ d # ds"
        using Cons by (metis takeWhile_dropWhile_id)
      show ?thesis
      proof (cases "d = CHR ''?''")
        case True
        with colon Cons have "scan (c # cs) =
            Hit (c # takeWhile is_word_char cs @ [d]) (takeWhile is_word_char cs) # scan ds"
          by (subst scan.simps) simp
        moreover have "render (\<lambda>w. w) (scan ds) = ds"
          using "2.IH"(1) [OF colon Cons True] .
        ultimately show ?thesis using split by simp
      next
        case False
        with colon Cons have "scan (c # cs) =
            Hit (c # takeWhile is_word_char cs) (takeWhile is_word_char cs) # scan (d # ds)"
          by (subst scan.simps) simp
        moreover have "render (\<lambda>w. w) (scan (d # ds)) = d # ds"
          using "2.IH"(2) [OF colon Cons False] .
        ultimately show ?thesis using split by simp
      qed
    qed
  next
    case False
    note nocolon = this
    show ?thesis
    proof (cases "c = CHR ''('' \<and> cs \<noteq> [] \<and> hd cs \<noteq> CHR 0x0A")
      case True
      with nocolon have "scan (c # cs) = Hit (c # takeWhile (\<lambda>x. x \<noteq> CHR 0x0A) cs) []
          # scan (dropWhile (\<lambda>x. x \<noteq> CHR 0x0A) cs)"
        by (subst scan.simps) simp
      moreover have "render (\<lambda>w. w) (scan (dropWhile (\<lambda>x. x \<noteq> CHR 0x0A) cs))
          = dropWhile (\<lambda>x. x \<noteq> CHR 0x0A) cs"
        using "2.IH"(3) [OF nocolon True] .
      ultimately show ?thesis by simp
    next
      case False
      with nocolon have "scan (c # cs) = Text c # scan cs"
        by (subst scan.simps) auto
      moreover have "render (\<lambda>w. w) (scan cs) = cs"
        using "2.IH"(4) [OF nocolon False] .
      ultimately show ?thesis by simp
    qed
  qed
qed

lemma HasSuffix_slash: "HasSuffix p ''/'' \<longleftrightarrow> p \<noteq> [] \<and> last p = CHR ''/''"
proof (cases p rule: rev_cases)
  case Nil
  then show ?thesis by (simp add: HasSuffix_def)
next
  case (snoc ys y)
  then show ?thesis by (simp add: HasSuffix_def)
qed

lemma static_string_pattern:
  assumes "\<not> passthrough r" "FindAllStringSubmatch (path r) = []"
  shows "string_pattern r =
     ''^'' @ (if HasSuffix (path r) ''/'' then butlast (path r) else path r) @ ''/?$''"
proof -
  from assms(2) have sp: "ReplaceAllStringFunc (path r) (replace_match r) = path r"
    by (simp add: ReplaceAllStringFunc_def FindAllStringSubmatch_def scan_no_hits)
  show ?thesis
  proof (cases "HasSuffix (path r) ''/''")
    case True
    then have "path r = butlast (path r) @ ''/''"
      by (simp add: HasSuffix_slash) (metis append_butlast_last_id)
    then have "''^'' @ path r @ ''?'' @ ''$'' = ''^'' @ butlast (path r) @ ''/?$''"
      by (metis append.assoc append_Cons append_Nil)
    with True sp assms(1) show ?thesis
      by (simp add: string_pattern_def)
  next
    case False
    with sp assms(1) show ?thesis by (simp add: string_pattern_def)
  qed
qed


subsection \<open>Paths with an optional parameter\<close>

lemma scan_text_prefix:
  assumes "CHR '':'' \<notin> set pre" "CHR ''('' \<notin> set pre"
  shows "scan (pre @ rest) = map Text pre @ scan rest"
  using assms
proof (induction pre)
  case Nil
  then show ?case by simp
next
  case (Cons c pre)
  then have "scan (c # pre @ rest) = Text c # scan (pre @ rest)"
    by (subst scan.simps) auto
  with Cons show ?case by simp
qed

lemma scan_text_only:
  assumes "CHR '':'' \<notin> set q" "CHR ''('' \<notin> set q"
  shows "scan q = map Text q"
  using scan_text_prefix [OF assms, of "[]"] by (simp add: scan.simps)

lemma not_word_quest: "\<not> is_word_char CHR ''?''" "\<not> is_word_char CHR '':''"
  by (simp_all add: is_word_char_def is_digit_def is_upper_def is_lower_def)

lemma scan_optional_param:
  assumes "nm \<noteq> []" "list_all is_word_char nm"
  shows "scan (CHR '':'' # nm @ CHR ''?'' # suf) = Hit (CHR '':'' # nm @ ''?'') nm # scan suf"
proof -
  from assms(2) have tw: "takeWhile is_word_char (nm @ CHR ''?'' # suf) = nm"
    by (simp add: list_all_iff takeWhile_append2 not_word_quest)
  from assms(2) have dw: "dropWhile is_word_char (nm @ CHR ''?'' # suf) = CHR ''?'' # suf"
    by (simp add: list_all_iff dropWhile_append2 not_word_quest)
  from assms have hd: "nm @ CHR ''?'' # suf \<noteq> [] \<and> is_word_char (hd (nm @ CHR ''?'' # suf))"
    by (cases nm) simp_all
  show ?thesis
    by (subst scan.simps) (simp add: tw dw hd)
qed

declare FindAllWords.simps [simp del]

lemma FindAllWords_optional_param:
  assumes "nm \<noteq> []" "list_all is_word_char nm"
  shows "FindAllWords (CHR '':'' # nm @ ''?'') = [nm]"
proof -
  from assms obtain c n' where nm: "nm = c # n'" by (cases nm) auto
  with assms(2) have c: "is_word_char c" and n': "\<forall>x\<in>set n'. is_word_char x"
    by (simp_all add: list_all_iff)
  from n' have tw: "takeWhile is_word_char (n' @ ''?'') = n'"
    by (simp add: takeWhile_append2 not_word_quest)
  from n' have dw: "dropWhile is_word_char (n' @ ''?'') = ''?''"
    by (simp add: dropWhile_append2 not_word_quest)
  show ?thesis
    by (simp add: FindAllWords.simps nm c tw dw not_word_quest)
qed

lemma replace_optional_param:
  assumes "nm \<noteq> []" "list_all is_word_char nm" "assertions r nm = None"
  shows "replace_match r (CHR '':'' # nm @ ''?'') = ''?'' @ DefaultParamPattern @ ''?''"
  using assms
  by (simp add: replace_match_def FindAllWords_optional_param assertion_of_def HasSuffix_def)

lemma ordinary_not_special:
  assumes "ordinary c"
  shows "c \<noteq> CHR ''(''" "c \<noteq> CHR ''?''" "c \<noteq> CHR 0x5C"
  using assms by (auto simp: ordinary_def meta_char_def)

lemma optional_param_string_pattern:
  assumes "path r = pre @ CHR '':'' # nm @ CHR ''?'' # suf"
    and "list_all ordinary pre" "CHR '':'' \<notin> set pre"
    and "nm \<noteq> []" "list_all is_word_char nm"
    and "list_all ordinary suf" "CHR '':'' \<notin> set suf"
    and "assertions r nm = None"
  shows "string_pattern r =
     ''^'' @ pre @ ''?'' @ DefaultParamPattern @ ''?''
       @ (if HasSuffix suf ''/'' then butlast suf else suf) @ ''/?''
       @ (if passthrough r then [] else ''$'')"
proof -
  have np: "CHR ''('' \<notin> set pre" "CHR ''('' \<notin> set suf"
    using assms(2,6) ordinary_not_special(1) by (auto simp: list_all_iff)
  have sc: "scan (path r) = map Text pre @ Hit (CHR '':'' # nm @ ''?'') nm # map Text suf"
    unfolding assms(1)
    by (simp add: scan_text_prefix [OF assms(3) np(1)] scan_optional_param [OF assms(4,5)]
        scan_text_only [OF assms(7) np(2)])
  have rt: "render f (map Text q @ ps) = q @ render f ps" for f q ps
    by (induction q) simp_all
  have sp: "ReplaceAllStringFunc (path r) (replace_match r)
      = pre @ ''?'' @ DefaultParamPattern @ ''?'' @ suf"
    using rt [of "replace_match r" suf "[]"]
    by (simp add: ReplaceAllStringFunc_def sc rt replace_optional_param [OF assms(4,5,8)])
  let ?body = "pre @ ''?'' @ DefaultParamPattern @ ''?''"
  have hs: "HasSuffix (?body @ suf) ''/'' \<longleftrightarrow> HasSuffix suf ''/''"
    by (cases suf rule: rev_cases) (simp_all add: HasSuffix_slash)
  show ?thesis
  proof (cases "HasSuffix suf ''/''")
    case True
    then have "suf = butlast suf @ ''/''"
      by (simp add: HasSuffix_slash) (metis append_butlast_last_id)
    then have "?body @ suf @ ''?'' = ?body @ butlast suf @ ''/?''"
      by (metis append.assoc append_Cons append_Nil)
    with True hs sp show ?thesis
      by (simp add: string_pattern_def)
  next
    case False
    with hs sp show ?thesis by (simp add: string_pattern_def)
  qed
qed

lemma parse_tail_any:
  "parse_rx (a, its) [] lr ''/?$'' = Inr (mk_alt (rev (mk_cat (rev its @ [Quest (Literal CHR ''/''), EndText]) # a)))"
  "parse_rx (a, its) [] lr ''/?'' = Inr (mk_alt (rev (mk_cat (rev its @ [Quest (Literal CHR ''/'')]) # a)))"
  by (simp_all add: parse_rx.simps push_def plain_atom_def repeat_op_def close_frame_def)

lemma parse_caret_literals:
  assumes "list_all ordinary q"
  shows "parse_rx ([], []) [] False (CHR ''^'' # q @ rest)
       = parse_rx ([], rev (map Literal q) @ [BeginText]) [] False rest"
  using parse_literals' [OF assms, of "([], [BeginText])" "[]" rest]
  by (simp add: parse_rx.simps(2) [of _ _ _ "CHR ''^''"] push_def plain_atom_def)

lemma step_repeat:
  assumes "c = CHR ''?'' \<or> c = CHR ''+'' \<or> c = CHR ''*''" and "cs = [] \<or> hd cs \<noteq> CHR ''?''"
  shows "parse_rx (a, i # rs) st False (c # cs) = parse_rx (a, repeat_op c i # rs) st True cs"
proof (cases cs)
  case Nil
  with assms(1) show ?thesis by (elim disjE) (subst parse_rx.simps, simp)+
next
  case (Cons d ds)
  with assms(2) have "d \<noteq> CHR ''?''" by simp
  with Cons assms(1) show ?thesis by (elim disjE) (subst parse_rx.simps, simp)+
qed

lemma step_open:
  assumes "d \<noteq> CHR ''?''"
  shows "parse_rx f st lr (CHR ''('' # d # ds) = parse_rx ([], []) (f # st) False (d # ds)"
  using assms by (subst parse_rx.simps) simp

lemma step_escape:
  assumes "escape_atom d = Inr r"
  shows "parse_rx f st lr (CHR 0x5C # d # ds) = parse_rx (push r f) st False ds"
  using assms by (subst parse_rx.simps) simp

lemma step_close:
  "parse_rx f (g # st) lr (CHR '')'' # cs) = parse_rx (push (Capture (close_frame f)) g) st False cs"
  by (subst parse_rx.simps) simp

lemma parse_optional_group:
  assumes "rest = [] \<or> hd rest \<noteq> CHR ''?''"
  shows "parse_rx (a, i # rs) st False (''?'' @ DefaultParamPattern @ ''?'' @ rest)
       = parse_rx (a, Quest word_group # Quest i # rs) st True rest"
proof -
  have "parse_rx (a, i # rs) st False (''?'' @ DefaultParamPattern @ ''?'' @ rest)
      = parse_rx (a, i # rs) st False (CHR ''?'' # CHR ''('' # CHR 0x5C # CHR ''w'' # CHR ''+''
          # CHR '')'' # CHR ''?'' # rest)"
    by (simp add: DefaultParamPattern_def)
  also have "\<dots> = parse_rx (a, Quest i # rs) st True (CHR ''('' # CHR 0x5C # CHR ''w'' # CHR ''+''
          # CHR '')'' # CHR ''?'' # rest)"
    by (subst step_repeat) (simp_all add: repeat_op_def)
  also have "\<dots> = parse_rx ([], []) ((a, Quest i # rs) # st) False (CHR 0x5C # CHR ''w'' # CHR ''+''
          # CHR '')'' # CHR ''?'' # rest)"
    by (subst step_open) simp_all
  also have "\<dots> = parse_rx ([], [CharClass False CWord]) ((a, Quest i # rs) # st) False (CHR ''+''
          # CHR '')'' # CHR ''?'' # rest)"
    by (subst step_escape [where r = "CharClass False CWord"]) (simp_all add: escape_atom_def push_def)
  also have "\<dots> = parse_rx ([], [Plus (CharClass False CWord)]) ((a, Quest i # rs) # st) True
          (CHR '')'' # CHR ''?'' # rest)"
    by (subst step_repeat) (simp_all add: repeat_op_def)
  also have "\<dots> = parse_rx (a, word_group # Quest i # rs) st False (CHR ''?'' # rest)"
    by (subst step_close) (simp add: push_def close_frame_def word_group_def)
  also have "\<dots> = parse_rx (a, Quest word_group # Quest i # rs) st True rest"
    using assms by (subst step_repeat) (simp_all add: repeat_op_def)
  finally show ?thesis .
qed

lemma Compile_optional_param:
  assumes "list_all ordinary pre0" "ordinary x" "list_all ordinary q"
  shows "Compile (''^'' @ (pre0 @ [x]) @ ''?'' @ DefaultParamPattern @ ''?'' @ q @ ''/?'' @ ''$'')
        = Inr (mk_cat (BeginText # map Literal pre0 @ [Quest (Literal x), Quest word_group]
                 @ map Literal q @ [Quest (Literal CHR ''/''), EndText]))"
    and "Compile (''^'' @ (pre0 @ [x]) @ ''?'' @ DefaultParamPattern @ ''?'' @ q @ ''/?'' @ [])
        = Inr (mk_cat (BeginText # map Literal pre0 @ [Quest (Literal x), Quest word_group]
                 @ map Literal q @ [Quest (Literal CHR ''/'')]))"
proof -
  have pre: "list_all ordinary (pre0 @ [x])" using assms(1,2) by simp
  have step: "parse_rx ([], []) [] False
        (CHR ''^'' # (pre0 @ [x]) @ ''?'' @ DefaultParamPattern @ ''?'' @ q @ tl)
      = parse_rx ([], rev (map Literal q) @ Quest word_group # Quest (Literal x)
            # rev (map Literal pre0) @ [BeginText]) [] (q = []) tl"
    if tl: "tl = ''/?$'' \<or> tl = ''/?''" for tl
  proof -
    have nq: "q @ tl = [] \<or> hd (q @ tl) \<noteq> CHR ''?''"
    proof (cases q)
      case Nil
      with tl show ?thesis by auto
    next
      case (Cons c cs)
      with assms(3) have "ordinary c" by simp
      with Cons show ?thesis by (simp add: ordinary_not_special)
    qed
    have "parse_rx ([], []) [] False
        (CHR ''^'' # (pre0 @ [x]) @ ''?'' @ DefaultParamPattern @ ''?'' @ q @ tl)
       = parse_rx ([], Literal x # rev (map Literal pre0) @ [BeginText]) [] False
           (''?'' @ DefaultParamPattern @ ''?'' @ q @ tl)"
      using parse_caret_literals [OF pre, of "''?'' @ DefaultParamPattern @ ''?'' @ q @ tl"]
      by simp
    also have "\<dots> = parse_rx ([], Quest word_group # Quest (Literal x)
            # rev (map Literal pre0) @ [BeginText]) [] True (q @ tl)"
      using parse_optional_group [OF nq] by simp
    also have "\<dots> = parse_rx ([], rev (map Literal q) @ Quest word_group # Quest (Literal x)
            # rev (map Literal pre0) @ [BeginText]) [] (q = []) tl"
    proof (cases "q = []")
      case True
      then show ?thesis by simp
    next
      case False
      with parse_literals [OF assms(3) False] show ?thesis by simp
    qed
    finally show ?thesis .
  qed
  show "Compile (''^'' @ (pre0 @ [x]) @ ''?'' @ DefaultParamPattern @ ''?'' @ q @ ''/?'' @ ''$'')
        = Inr (mk_cat (BeginText # map Literal pre0 @ [Quest (Literal x), Quest word_group]
                 @ map Literal q @ [Quest (Literal CHR ''/''), EndText]))"
    using step [of "''/?$''"] by (simp add: Compile_def parse_tail_any)
  show "Compile (''^'' @ (pre0 @ [x]) @ ''?'' @ DefaultParamPattern @ ''?'' @ q @ ''/?'' @ [])
        = Inr (mk_cat (BeginText # map Literal pre0 @ [Quest (Literal x), Quest word_group]
                 @ map Literal q @ [Quest (Literal CHR ''/'')]))"
    using step [of "''/?''"] by (simp add: Compile_def parse_tail_any)
qed

lemma can_end_Nil: "can_end [] t t"
  by (simp add: can_end_def)

lemma can_end_Cons:
  assumes "\<And>b. \<exists>b'. (b', m) \<in> set (rx_ends r (b, t))" and "can_end rs m u"
  shows "can_end (r # rs) t u"
  unfolding can_end_def
proof
  fix b
  from assms(1) obtain b1 where 1: "(b1, m) \<in> set (rx_ends r (b, t))" by blast
  from assms(2) obtain b2 where 2: "(b2, u) \<in> set (rx_ends (mk_cat rs) (b1, m))"
    unfolding can_end_def by blast
  from 1 2 have "(b2, u) \<in> set (rx_ends (mk_cat (r # rs)) (b, t))" by auto
  then show "\<exists>b'. (b', u) \<in> set (rx_ends (mk_cat (r # rs)) (b, t))" ..
qed

lemma can_end_literals:
  assumes "can_end rs t u"
  shows "can_end (map Literal l @ rs) (l @ t) u"
proof (induction l)
  case Nil
  from assms show ?case by simp
next
  case (Cons c l)
  have "\<And>b. \<exists>b'. (b', l @ t) \<in> set (rx_ends (Literal c) (b, c # l @ t))" by simp
  from can_end_Cons [OF this Cons] show ?case by simp
qed

lemma can_end_skip:
  assumes "can_end rs t u"
  shows "can_end (Quest r # rs) t u"
proof -
  have "\<And>b. \<exists>b'. (b', t) \<in> set (rx_ends (Quest r) (b, t))" by auto
  from can_end_Cons [OF this assms] show ?thesis .
qed

lemma can_end_take_literal:
  assumes "can_end rs t u"
  shows "can_end (Quest (Literal x) # rs) (x # t) u"
proof -
  have "\<And>b. \<exists>b'. (b', t) \<in> set (rx_ends (Quest (Literal x)) (b, x # t))" by simp
  from can_end_Cons [OF this assms] show ?thesis .
qed

declare rx_ends.simps(10) [simp del]

lemma star_word_step:
  assumes "is_word_char c" and "q \<in> set (rx_ends (Star (CharClass False CWord)) (False, t))"
  shows "q \<in> set (rx_ends (Star (CharClass False CWord)) (b, c # t))"
  using assms by (subst rx_ends.simps(10)) simp

lemma star_word_run:
  assumes "list_all is_word_char v"
  shows "(b \<and> v = [], u) \<in> set (rx_ends (Star (CharClass False CWord)) (b, v @ u))"
  using assms
proof (induction v arbitrary: b)
  case Nil
  show ?case by (subst rx_ends.simps(10)) simp
next
  case (Cons c v)
  from Cons.prems have c: "is_word_char c" and v: "list_all is_word_char v" by simp_all
  from Cons.IH [OF v, of False]
  have "(False, u) \<in> set (rx_ends (Star (CharClass False CWord)) (False, v @ u))" by simp
  from star_word_step [OF c this] show ?case by simp
qed

lemma word_group_run:
  assumes "v \<noteq> []" "list_all is_word_char v"
  shows "(False, u) \<in> set (rx_ends word_group (b, v @ u))"
proof -
  from assms obtain c v' where v: "v = c # v'" by (cases v) auto
  with assms(2) have c: "is_word_char c" and v': "list_all is_word_char v'" by simp_all
  from star_word_run [OF v', of False u]
  have "(False, u) \<in> set (rx_ends (Star (CharClass False CWord)) (False, v' @ u))" by simp
  with c v show ?thesis by (simp add: word_group_def)
qed

lemma can_end_take_word:
  assumes "v \<noteq> []" "list_all is_word_char v" "can_end rs t u"
  shows "can_end (Quest word_group # rs) (v @ t) u"
proof -
  have "\<And>b. \<exists>b'. (b', t) \<in> set (rx_ends (Quest word_group) (b, v @ t))"
    using word_group_run [OF assms(1,2)] by auto
  from can_end_Cons [OF this assms(3)] show ?thesis .
qed

lemma can_end_EndText: "can_end [EndText] [] []"
  by (simp add: can_end_def)

lemma MatchString_can_end:
  assumes "can_end rs s u"
  shows "MatchString (mk_cat (BeginText # rs)) s"
proof -
  from assms obtain b' where "(b', u) \<in> set (rx_ends (mk_cat rs) (True, s))"
    unfolding can_end_def by blast
  then have "rx_ends (mk_cat rs) (True, s) \<noteq> []" by auto
  with MatchString_anchored [of rs s] show ?thesis by blast
qed

lemma can_end_optional_tail:
  assumes "t = [] \<or> t = ''/''" and "el = [] \<or> el = [EndText]"
  shows "can_end (map Literal q @ Quest (Literal CHR ''/'') # el) (q @ t) []"
proof -
  have e: "can_end el [] []"
    using assms(2) can_end_Nil can_end_EndText by auto
  have "can_end (Quest (Literal CHR ''/'') # el) t []"
    using assms(1) can_end_skip [OF e] can_end_take_literal [OF e] by auto
  from can_end_literals [OF this] show ?thesis .
qed

lemma optional_param_accepts:
  assumes "t = [] \<or> t = ''/''" and "el = [] \<or> el = [EndText]"
    and "v = [] \<or> list_all is_word_char v"
  shows "MatchString (mk_cat (BeginText # map Literal pre0 @ Quest (Literal x) # Quest word_group
            # map Literal q @ Quest (Literal CHR ''/'') # el)) (pre0 @ x # v @ q @ t)"
    and "MatchString (mk_cat (BeginText # map Literal pre0 @ Quest (Literal x) # Quest word_group
            # map Literal q @ Quest (Literal CHR ''/'') # el)) (pre0 @ v @ q @ t)"
proof -
  let ?tail = "map Literal q @ Quest (Literal CHR ''/'') # el"
  have 1: "can_end ?tail (q @ t) []" by (rule can_end_optional_tail [OF assms(1,2)])
  have 2: "can_end (Quest word_group # ?tail) (v @ q @ t) []"
  proof (cases "v = []")
    case True
    with can_end_skip [OF 1] show ?thesis by simp
  next
    case False
    with assms(3) have "list_all is_word_char v" by simp
    from can_end_take_word [OF False this 1] show ?thesis .
  qed
  have 3: "can_end (Quest (Literal x) # Quest word_group # ?tail) (x # v @ q @ t) []"
    by (rule can_end_take_literal [OF 2])
  have 4: "can_end (Quest (Literal x) # Quest word_group # ?tail) (v @ q @ t) []"
    by (rule can_end_skip [OF 2])
  show "MatchString (mk_cat (BeginText # map Literal pre0 @ Quest (Literal x) # Quest word_group
            # map Literal q @ Quest (Literal CHR ''/'') # el)) (pre0 @ x # v @ q @ t)"
    by (rule MatchString_can_end [OF can_end_literals [OF 3]])
  show "MatchString (mk_cat (BeginText # map Literal pre0 @ Quest (Literal x) # Quest word_group
            # map Literal q @ Quest (Literal CHR ''/'') # el)) (pre0 @ v @ q @ t)"
    by (rule MatchString_can_end [OF can_end_literals [OF 4]])
qed

lemma HasSuffix_slash_split: "HasSuffix p ''/'' \<Longrightarrow> p = butlast p @ ''/''"
  by (simp add: HasSuffix_slash) (metis append_butlast_last_id)


subsection \<open>Mutators of frozen routes and tables\<close>

text \<open>
  The mutators of a route that test \<open>IsFrozen\<close> leave a frozen route as it is, and the
  table operations that go through \<open>mustNotBeFrozen\<close> panic on a frozen table before
  they change anything.
\<close>

lemma frozen_route_guarded:
  assumes "IsFrozen r"
  shows "SetName n r = r" and "SetHandler h r = Inr r" and "SetMethods ms r = r"
    and "Assert k pat r = Inr r" and "freeze r = Inr r"
  using assms by (simp_all add: SetName_def SetHandler_def SetMethods_def Assert_def freeze_def)

lemma frozen_table_guarded:
  assumes "IsFrozen_cc rc"
  shows "All p h rc = Inl FrozenCollection" and "Get p h rc = Inl FrozenCollection"
    and "Post p h rc = Inl FrozenCollection" and "Put p h rc = Inl FrozenCollection"
    and "Delete p h rc = Inl FrozenCollection" and "Use p h rc = Inl FrozenCollection"
    and "Flush rc = Inr rc"
  using assms
  by (simp_all add: All_def Get_def Post_def Put_def Delete_def Use_def with_methods_def
      mustNotBeFrozen_def IsFrozen_cc_def)

text \<open>
  C1. The claim: every mutating operation on a frozen route or a frozen table leaves
  its state as it was. Three operations of the source have no test for the frozen
  flag. \<open>SetAttribute\<close> stores the attribute in a route that \<open>freeze\<close> has frozen;
  \<open>AddRoute\<close> appends to the routes of a table that \<open>Flush\<close> has frozen; \<open>Mount\<close> appends
  a child to such a table.
\<close>

theorem C1_frozen_route_and_table_still_change:
  "(\<exists>r. freeze (NewRoute ''/a'') = Inr r \<and> IsFrozen r
        \<and> Attribute ''k'' r = None
        \<and> Attribute ''k'' (SetAttribute ''k'' (AnyValue 1) r) = Some (AnyValue 1))
   \<and> (\<exists>rc. Flush NewControllerCollection = Inr rc \<and> IsFrozen_cc rc
        \<and> Routes rc = []
        \<and> Routes (AddRoute (NewRoute ''/b'') rc) = [NewRoute ''/b'']
        \<and> Children rc = []
        \<and> (\<exists>rc'. Mount ''/m'' NewControllerCollection rc = Inr rc' \<and> length (Children rc') = 1))"
  by (simp add: freeze_defs rx_defs Attribute_def SetAttribute_def NewControllerCollection_def
      IsFrozen_cc_def AddRoute_def set_Routes_def Mount_def setPrefix_def mustNotBeFrozen_def
      normalize_prefix_def)

subsection \<open>The method matcher\<close>

text \<open>
  C2. The claim gives three ways for the method matcher to accept: an empty method
  set, the wildcard verb \<open>*\<close> in the set, or the request's method in the set up to
  case. The matcher of the source has no case for the wildcard: a route whose method
  list is \<open>["*"]\<close> rejects a \<open>GET\<close> request, although \<open>SetMethods\<close> documents
  \<open>[]string{"*"}\<close> as "the route handles all methods".
\<close>

theorem C2_wildcard_rejects_GET:
  "MethodMatcher_Match [''*''] ''GET'' = False"
  by (simp add: MethodMatcher_Match_def ToUpper_def upper_char_def is_lower_def)

text \<open>
  C10. A route made by \<open>Get\<close> has the methods \<open>GET\<close> and \<open>HEAD\<close> and is the last route
  of the table. Once frozen (under any prefix \<open>Flush\<close> puts before its path) its method
  matcher accepts every request whose method is \<open>GET\<close> or \<open>HEAD\<close> up to case, so the
  route matches such a request exactly when its pattern matches the path.
\<close>

theorem C10_Get_accepts_GET_and_HEAD:
  assumes "Get p h rc = Inr (rc', r)"
  shows "methods r = [''GET'', ''HEAD'']
       \<and> Routes rc' = Routes rc @ [r]
       \<and> (\<forall>pfx r' req. freeze (r\<lparr>path := pfx @ path r\<rparr>) = Inr r'
             \<and> (ToUpper (Method req) = ''GET'' \<or> ToUpper (Method req) = ''HEAD'')
           \<longrightarrow> (\<exists>re. pattern r' = Some re
                  \<and> matchers r' = [PatternMatcher re, MethodMatcher [''GET'', ''HEAD'']]
                  \<and> Match (MethodMatcher [''GET'', ''HEAD'']) req
                  \<and> (list_all (\<lambda>m. Match m req) (matchers r') \<longleftrightarrow> MatchString re (URL_Path req))))"
proof -
  from assms obtain rc1 r1 where a: "All p h rc = Inr (rc1, r1)"
    and b: "(rc', r) = via_pointer (SetMethods [''GET'', ''HEAD'']) (rc1, r1)"
    by (auto simp: Get_def with_methods_def split: sum.splits)
  from All_result [OF a] have r1: "r1 = (NewRoute p)\<lparr>handlerFunc := h\<rparr>"
    and rs1: "Routes rc1 = Routes rc @ [r1]" by simp_all
  from r1 have nf: "\<not> frozen r1" by (simp add: NewRoute_def)
  from b nf have r: "r = r1\<lparr>methods := [''GET'', ''HEAD'']\<rparr>"
    by (simp add: via_pointer_def SetMethods_def IsFrozen_def)
  from b rs1 have rs: "Routes rc' = Routes rc @ [r]"
    by (simp add: via_pointer_def set_Routes_def)
  have m: "methods r = [''GET'', ''HEAD'']" using r by simp
  have fr: "\<not> frozen r" using r nf by simp
  have acc: "\<exists>re. pattern r' = Some re
                  \<and> matchers r' = [PatternMatcher re, MethodMatcher [''GET'', ''HEAD'']]
                  \<and> Match (MethodMatcher [''GET'', ''HEAD'']) req
                  \<and> (list_all (\<lambda>m. Match m req) (matchers r') \<longleftrightarrow> MatchString re (URL_Path req))"
    if f: "freeze (r\<lparr>path := pfx @ path r\<rparr>) = Inr r'"
      and u: "ToUpper (Method req) = ''GET'' \<or> ToUpper (Method req) = ''HEAD''"
    for pfx r' req
  proof -
    from freeze_fields(2) [OF f] fr m obtain re where re: "pattern r' = Some re"
      "matchers r' = [PatternMatcher re, MethodMatcher [''GET'', ''HEAD'']]" by auto
    from u have mm: "Match (MethodMatcher [''GET'', ''HEAD'']) req"
      by (auto simp: MethodMatcher_Match_iff ToUpper_GET)
    from re mm show ?thesis by simp
  qed
  from m rs acc show ?thesis by blast
qed

theorem C10_Get_witness:
  "\<exists>rc' r r'. Get ''/a'' (HFunc []) NewControllerCollection = Inr (rc', r)
     \<and> methods r = [''GET'', ''HEAD''] \<and> Routes rc' = [r]
     \<and> freeze (r\<lparr>path := ''/v1'' @ path r\<rparr>) = Inr r'
     \<and> list_all (\<lambda>m. Match m \<lparr>Method = ''head'', URL_Path = ''/v1/a''\<rparr>) (matchers r')"
proof -
  let ?r = "(NewRoute ''/a'')\<lparr>handlerFunc := HFunc [], methods := [''GET'', ''HEAD'']\<rparr>"
  let ?rc = "CC [?r] [] False [] False"
  let ?req = "\<lparr>Method = ''head'', URL_Path = ''/v1/a''\<rparr>"
  have g: "Get ''/a'' (HFunc []) NewControllerCollection = Inr (?rc, ?r)"
    by (simp add: Get_def with_methods_def All_def mustNotBeFrozen_def SetHandler_def
        MustBeCallable_def IsFrozen_def NewRoute_def set_Routes_def via_pointer_def
        SetMethods_def NewControllerCollection_def)
  obtain r' where f: "freeze (?r\<lparr>path := ''/v1'' @ path ?r\<rparr>) = Inr r'"
    by (simp add: freeze_defs rx_defs)
  have u: "ToUpper (Method ?req) = ''GET'' \<or> ToUpper (Method ?req) = ''HEAD''"
    by (simp add: ToUpper_def upper_char_def is_lower_def)
  from C10_Get_accepts_GET_and_HEAD [OF g] f u
  obtain re where re: "pattern r' = Some re"
    "list_all (\<lambda>m. Match m ?req) (matchers r') \<longleftrightarrow> MatchString re (URL_Path ?req)"
    and ms: "methods ?r = [''GET'', ''HEAD'']" "Routes ?rc = Routes NewControllerCollection @ [?r]"
    by blast
  from f have "pattern r' = Some (mk_cat (BeginText # map Literal ''/v1/a'' @ [Quest (Literal CHR ''/''), EndText]))"
    by (auto simp: freeze_defs rx_defs)
  with re have "re = mk_cat (BeginText # map Literal ''/v1/a'' @ [Quest (Literal CHR ''/''), EndText])"
    by simp
  moreover have "MatchString (mk_cat (BeginText # map Literal ''/v1/a'' @ [Quest (Literal CHR ''/''), EndText])) ''/v1/a''"
    by code_simp
  ultimately have "MatchString re ''/v1/a''" by simp
  with re have "list_all (\<lambda>m. Match m ?req) (matchers r')" by simp
  with g f ms show ?thesis
    by (auto simp: NewControllerCollection_def)
qed

subsection \<open>Static paths\<close>

text \<open>
  C6, as amended. A route that is not a passthrough route and whose path holds no match
  of the route-variable pattern and only ordinary characters compiles to a pattern that
  matches the path itself and, when the path does not end in a slash, the path with
  one slash added; when the path does end in a slash, the path without that slash.
  It matches no other string.
\<close>

theorem C6_static_literal_path:
  assumes "\<not> IsFrozen r" and "\<not> passthrough r"
    and "FindAllStringSubmatch (path r) = []" and "list_all ordinary (path r)"
  shows "\<exists>r' re. freeze r = Inr r' \<and> pattern r' = Some re \<and>
           (\<forall>s. MatchString re s \<longleftrightarrow>
              (s = path r \<or> (if HasSuffix (path r) ''/'' then s = butlast (path r)
                             else s = path r @ ''/'')))"
proof -
  let ?q = "if HasSuffix (path r) ''/'' then butlast (path r) else path r"
  let ?re = "mk_cat (BeginText # map Literal ?q @ [Quest (Literal CHR ''/''), EndText])"
  have q: "list_all ordinary ?q"
    using assms(4) by (auto simp: list_all_iff dest: in_set_butlastD)
  have sp: "string_pattern r = ''^'' @ ?q @ ''/?$''"
    using static_string_pattern [OF assms(2,3)] .
  have c: "Compile (string_pattern r) = Inr ?re"
    unfolding sp by (rule Compile_static(1) [OF q])
  from assms(1) c obtain r' where f: "freeze r = Inr r'" and p: "pattern r' = Some ?re"
    by (simp add: freeze_def)
  have m: "MatchString ?re s \<longleftrightarrow>
      (s = path r \<or> (if HasSuffix (path r) ''/'' then s = butlast (path r) else s = path r @ ''/''))" for s
  proof (cases "HasSuffix (path r) ''/''")
    case True
    then have "path r = butlast (path r) @ ''/''"
      by (simp add: HasSuffix_slash) (metis append_butlast_last_id)
    with True show ?thesis
      using MatchString_static [of "butlast (path r)" s] by auto
  next
    case False
    then show ?thesis using MatchString_static [of "path r" s] by simp
  qed
  from f p m show ?thesis by blast
qed

theorem C6_static_literal_path_witness:
  "\<exists>r' re. freeze (NewRoute ''/a'') = Inr r' \<and> pattern r' = Some re
      \<and> MatchString re ''/a'' \<and> MatchString re ''/a/'' \<and> \<not> MatchString re ''/a/b''
      \<and> \<not> MatchString re ''/a//''"
proof -
  have 1: "\<not> IsFrozen (NewRoute ''/a'')" "\<not> passthrough (NewRoute ''/a'')"
    by (simp_all add: IsFrozen_def NewRoute_def)
  have 2: "FindAllStringSubmatch (path (NewRoute ''/a'')) = []"
    by (simp add: NewRoute_def FindAllStringSubmatch_def scan.simps)
  have 3: "list_all ordinary (path (NewRoute ''/a''))"
    by (simp add: NewRoute_def ordinary_def meta_char_def)
  have 4: "path (NewRoute ''/a'') = ''/a''" "\<not> HasSuffix ''/a'' ''/''"
    by (simp_all add: NewRoute_def HasSuffix_def)
  from C6_static_literal_path [OF 1 2 3] obtain r' re
    where f: "freeze (NewRoute ''/a'') = Inr r'" and p: "pattern r' = Some re"
      and m: "\<And>s. MatchString re s \<longleftrightarrow> (s = ''/a'' \<or> s = ''/a/'')"
    by (auto simp: 4)
  have "MatchString re ''/a''" "MatchString re ''/a/''" "\<not> MatchString re ''/a/b''"
    "\<not> MatchString re ''/a//''"
    by (simp_all add: m)
  with f p show ?thesis by blast
qed

text \<open>
  The claim as it is written fails in two ways. A static path that ends in a slash also
  matches without the slash (\<open>freeze\<close> makes the final slash optional), a string
  the claim excludes; and a static path is read as a regular expression, so a dot in
  it matches any character.
\<close>

theorem C6_counterexample:
  "(\<exists>r re. freeze (NewRoute ''/a/'') = Inr r \<and> pattern r = Some re
       \<and> FindAllStringSubmatch ''/a/'' = [] \<and> MatchString re ''/a'')
   \<and> (\<exists>r re. freeze (NewRoute ''/a.b'') = Inr r \<and> pattern r = Some re
       \<and> FindAllStringSubmatch ''/a.b'' = [] \<and> MatchString re ''/axb'')"
proof -
  let ?ra = "mk_cat [BeginText, Literal CHR ''/'', Literal CHR ''a'',
            Quest (Literal CHR ''/''), EndText]"
  let ?rb = "mk_cat [BeginText, Literal CHR ''/'', Literal CHR ''a'',
            AnyCharNotNL, Literal CHR ''b'', Quest (Literal CHR ''/''), EndText]"
  have a: "\<exists>r. freeze (NewRoute ''/a/'') = Inr r \<and> pattern r = Some ?ra"
    by (simp add: freeze_defs rx_defs)
  have b: "\<exists>r. freeze (NewRoute ''/a.b'') = Inr r \<and> pattern r = Some ?rb"
    by (simp add: freeze_defs rx_defs)
  have c: "FindAllStringSubmatch ''/a/'' = []" "FindAllStringSubmatch ''/a.b'' = []"
    by (simp_all add: FindAllStringSubmatch_def scan.simps)
  have d: "MatchString ?ra ''/a''"
    by code_simp
  have e: "MatchString ?rb ''/axb''"
    by code_simp
  from a b c d e show ?thesis by blast
qed

subsection \<open>Parameter names\<close>

lemma param_names_length: "length (param_names i ms) = length ms"
  by (induction ms arbitrary: i) simp_all

lemma param_names_nth:
  "k < length ms \<Longrightarrow>
   param_names i ms ! k =
     (if fst (ms ! k) \<noteq> [] \<and> hd (fst (ms ! k)) = CHR '':'' then snd (ms ! k) else itoa (i + k))"
proof (induction ms arbitrary: i k)
  case Nil
  then show ?case by simp
next
  case (Cons m ms)
  show ?case
  proof (cases k)
    case 0
    then show ?thesis by simp
  next
    case (Suc j)
    with Cons.prems have "j < length ms" by simp
    from Cons.IH [OF this, of "Suc i"] Suc show ?thesis by simp
  qed
qed

declare itoa.simps [simp del]

lemma itoa_nonempty: "itoa n \<noteq> []"
  by (subst itoa.simps) simp

lemma digit_char_inj:
  assumes "a < 10" "b < 10" "digit_char a = digit_char b"
  shows "a = b"
proof -
  have d: "distinct ''0123456789''" by simp
  have "length ''0123456789'' = 10" by simp
  with assms d show ?thesis
    unfolding digit_char_def by (metis nth_eq_iff_index_eq)
qed

lemma itoa_inj: "itoa a = itoa b \<Longrightarrow> a = b"
proof (induction a arbitrary: b rule: less_induct)
  case (less a)
  show ?case
  proof (cases "a < 10")
    case True
    note a = this
    show ?thesis
    proof (cases "b < 10")
      case True
      with a less.prems show ?thesis
        by (simp add: itoa.simps digit_char_inj)
    next
      case False
      then have "itoa b = itoa (b div 10) @ [digit_char (b mod 10)]"
        by (subst itoa.simps) simp
      moreover from a have "itoa a = [digit_char a]" by (subst itoa.simps) simp
      ultimately show ?thesis using less.prems itoa_nonempty [of "b div 10"] by simp
    qed
  next
    case False
    note a = this
    then have ea: "itoa a = itoa (a div 10) @ [digit_char (a mod 10)]"
      by (subst itoa.simps) simp
    show ?thesis
    proof (cases "b < 10")
      case True
      then have "itoa b = [digit_char b]" by (subst itoa.simps) simp
      with ea less.prems itoa_nonempty [of "a div 10"] show ?thesis by simp
    next
      case False
      then have eb: "itoa b = itoa (b div 10) @ [digit_char (b mod 10)]"
        by (subst itoa.simps) simp
      from ea eb less.prems have 1: "itoa (a div 10) = itoa (b div 10)"
        and 2: "digit_char (a mod 10) = digit_char (b mod 10)" by simp_all
      from a have "a div 10 < a" by simp
      from less.IH [OF this 1] have d: "a div 10 = b div 10" .
      from 2 have m: "a mod 10 = b mod 10" by (simp add: digit_char_inj)
      from d m show ?thesis by (metis div_mult_mod_eq)
    qed
  qed
qed

lemma hits_shape: "m \<in> set (hits (scan p)) \<Longrightarrow> named_hit m \<or> raw_hit m"
proof (induction p rule: scan.induct)
  case 1
  then show ?case by (simp add: scan.simps)
next
  case (2 c cs)
  show ?case
  proof (cases "c = CHR '':'' \<and> cs \<noteq> [] \<and> is_word_char (hd cs)")
    case True
    note colon = this
    then have ne: "takeWhile is_word_char cs \<noteq> []"
      by (cases cs) auto
    have wd: "list_all is_word_char (takeWhile is_word_char cs)"
      by (simp add: list_all_iff) (meson set_takeWhileD)
    let ?n = "takeWhile is_word_char cs"
    show ?thesis
    proof (cases "dropWhile is_word_char cs")
      case Nil
      with colon have "scan (c # cs) = [Hit (c # ?n) ?n]"
        by (subst scan.simps) (simp del: dropWhile_eq_Nil_conv)
      with "2.prems" have "m = (c # ?n, ?n)" by simp
      with colon ne wd show ?thesis by (simp add: named_hit_def)
    next
      case (Cons d ds)
      show ?thesis
      proof (cases "d = CHR ''?''")
        case True
        with colon Cons have "scan (c # cs) = Hit (c # ?n @ [d]) ?n # scan ds"
          by (subst scan.simps) simp
        with "2.prems" have "m = (c # ?n @ [d], ?n) \<or> m \<in> set (hits (scan ds))" by auto
        then show ?thesis
        proof
          assume "m = (c # ?n @ [d], ?n)"
          with colon ne wd True show ?thesis by (simp add: named_hit_def)
        next
          assume "m \<in> set (hits (scan ds))"
          then show ?thesis using "2.IH"(1) [OF colon Cons True] by blast
        qed
      next
        case False
        with colon Cons have "scan (c # cs) = Hit (c # ?n) ?n # scan (d # ds)"
          by (subst scan.simps) simp
        with "2.prems" have "m = (c # ?n, ?n) \<or> m \<in> set (hits (scan (d # ds)))" by auto
        then show ?thesis
        proof
          assume "m = (c # ?n, ?n)"
          with colon ne wd show ?thesis by (simp add: named_hit_def)
        next
          assume "m \<in> set (hits (scan (d # ds)))"
          then show ?thesis using "2.IH"(2) [OF colon Cons False] by blast
        qed
      qed
    qed
  next
    case False
    note nocolon = this
    show ?thesis
    proof (cases "c = CHR ''('' \<and> cs \<noteq> [] \<and> hd cs \<noteq> CHR 0x0A")
      case True
      let ?b = "takeWhile (\<lambda>x. x \<noteq> CHR 0x0A) cs"
      from True have ne: "?b \<noteq> []" by (cases cs) auto
      have nl: "CHR 0x0A \<notin> set ?b"
        using set_takeWhileD [of "CHR 0x0A" "\<lambda>x. x \<noteq> CHR 0x0A" cs] by blast
      from nocolon True have "scan (c # cs) = Hit (c # ?b) []
          # scan (dropWhile (\<lambda>x. x \<noteq> CHR 0x0A) cs)"
        by (subst scan.simps) simp
      with "2.prems" have "m = (c # ?b, []) \<or> m \<in> set (hits (scan (dropWhile (\<lambda>x. x \<noteq> CHR 0x0A) cs)))"
        by auto
      then show ?thesis
      proof
        assume "m = (c # ?b, [])"
        with True ne nl show ?thesis by (simp add: raw_hit_def)
      next
        assume "m \<in> set (hits (scan (dropWhile (\<lambda>x. x \<noteq> CHR 0x0A) cs)))"
        then show ?thesis using "2.IH"(3) [OF nocolon True] by blast
      qed
    next
      case False
      with nocolon have "scan (c # cs) = Text c # scan cs"
        by (subst scan.simps) auto
      with "2.prems" have "m \<in> set (hits (scan cs))" by simp
      then show ?thesis using "2.IH"(4) [OF nocolon False] by blast
    qed
  qed
qed

lemma named_not_raw: "named_hit m \<Longrightarrow> \<not> raw_hit m"
  by (auto simp: named_hit_def raw_hit_def)


text \<open>
  C5, as amended. Freezing an unfrozen route appends one parameter name per match of
  the route-variable pattern, in the left-to-right order of the matches in the path
  (the matches and the bytes between them spell the path). A match of the \<open>:name\<close>
  form records \<open>name\<close>; a match of the raw-group form records the decimal string of
  its 0-based index among all the matches of the path, named ones included; two
  raw-group matches get different names.
\<close>

theorem C5_params_by_match_position:
  assumes "\<not> IsFrozen r" and "freeze r = Inr r'"
  shows "render (\<lambda>w. w) (scan (path r)) = path r
       \<and> length (params r') = length (params r) + length (FindAllStringSubmatch (path r))
       \<and> take (length (params r)) (params r') = params r
       \<and> (\<forall>k < length (FindAllStringSubmatch (path r)).
            (named_hit (FindAllStringSubmatch (path r) ! k)
               \<and> params r' ! (length (params r) + k) = snd (FindAllStringSubmatch (path r) ! k))
          \<or> (raw_hit (FindAllStringSubmatch (path r) ! k)
               \<and> params r' ! (length (params r) + k) = itoa k))
       \<and> (\<forall>j k. j < k \<and> k < length (FindAllStringSubmatch (path r))
              \<and> raw_hit (FindAllStringSubmatch (path r) ! j)
              \<and> raw_hit (FindAllStringSubmatch (path r) ! k)
            \<longrightarrow> params r' ! (length (params r) + j) \<noteq> params r' ! (length (params r) + k))"
proof -
  let ?ms = "FindAllStringSubmatch (path r)"
  from assms have ps: "params r' = params r @ param_names 0 ?ms"
    by (auto simp: freeze_def Let_def split: sum.splits)
  have at: "params r' ! (length (params r) + k) = param_names 0 ?ms ! k" for k
    by (simp add: ps nth_append)
  have shape: "named_hit (?ms ! k) \<or> raw_hit (?ms ! k)" if "k < length ?ms" for k
    using that hits_shape [of "?ms ! k" "path r"] by (simp add: FindAllStringSubmatch_def)
  have nm: "param_names 0 ?ms ! k = snd (?ms ! k)" if "k < length ?ms" "named_hit (?ms ! k)" for k
    using that by (auto simp: param_names_nth named_hit_def)
  have rw: "param_names 0 ?ms ! k = itoa k" if "k < length ?ms" "raw_hit (?ms ! k)" for k
    using that by (auto simp: param_names_nth raw_hit_def)
  have 1: "render (\<lambda>w. w) (scan (path r)) = path r" by (rule scan_spells_path)
  have 2: "length (params r') = length (params r) + length ?ms"
    by (simp add: ps param_names_length)
  have 3: "take (length (params r)) (params r') = params r" by (simp add: ps)
  have 4: "\<forall>k < length ?ms.
            (named_hit (?ms ! k) \<and> params r' ! (length (params r) + k) = snd (?ms ! k))
          \<or> (raw_hit (?ms ! k) \<and> params r' ! (length (params r) + k) = itoa k)"
    using shape nm rw at by metis
  have 5: "\<forall>j k. j < k \<and> k < length ?ms \<and> raw_hit (?ms ! j) \<and> raw_hit (?ms ! k)
            \<longrightarrow> params r' ! (length (params r) + j) \<noteq> params r' ! (length (params r) + k)"
  proof (intro allI impI)
    fix j k
    assume a: "j < k \<and> k < length ?ms \<and> raw_hit (?ms ! j) \<and> raw_hit (?ms ! k)"
    then have "param_names 0 ?ms ! j = itoa j" "param_names 0 ?ms ! k = itoa k"
      using rw by simp_all
    moreover from a have "itoa j \<noteq> itoa k" using itoa_inj by fastforce
    ultimately show "params r' ! (length (params r) + j) \<noteq> params r' ! (length (params r) + k)"
      by (simp add: at)
  qed
  from 1 2 3 4 5 show ?thesis by blast
qed

theorem C5_params_by_match_position_witness:
  "\<exists>r'. freeze (NewRoute ''/:a/(x)'') = Inr r' \<and> length (params r') = 2
       \<and> params r' ! 0 = ''a'' \<and> params r' ! 1 = ''1''"
proof -
  let ?r = "NewRoute ''/:a/(x)''"
  have nf: "\<not> IsFrozen ?r" by (simp add: IsFrozen_def NewRoute_def)
  obtain r' where f: "freeze ?r = Inr r'"
    by (simp add: freeze_defs rx_defs)
  have ms: "FindAllStringSubmatch (path ?r) = [('':a'', ''a''), (''(x)'', [])]"
    by (simp add: NewRoute_def FindAllStringSubmatch_def scan.simps is_word_char_def
        is_digit_def is_upper_def is_lower_def)
  have p0: "params ?r = []" by (simp add: NewRoute_def)
  have k0: "\<not> raw_hit ('':a'', ''a'')" and k1: "\<not> named_hit (''(x)'', [])"
    by (simp_all add: raw_hit_def named_hit_def)
  from C5_params_by_match_position [OF nf f]
  have len: "length (params r') = length (params ?r) + length (FindAllStringSubmatch (path ?r))"
    and each: "\<forall>k < length (FindAllStringSubmatch (path ?r)).
            (named_hit (FindAllStringSubmatch (path ?r) ! k)
               \<and> params r' ! (length (params ?r) + k) = snd (FindAllStringSubmatch (path ?r) ! k))
          \<or> (raw_hit (FindAllStringSubmatch (path ?r) ! k)
               \<and> params r' ! (length (params ?r) + k) = itoa k)"
    by blast+
  from len have 1: "length (params r') = 2" by (simp add: ms p0)
  from each [rule_format, of 0] k0 have 2: "params r' ! 0 = ''a''" by (simp add: ms p0)
  from each [rule_format, of 1] k1 have "params r' ! 1 = itoa 1" by (simp add: ms p0)
  then have 3: "params r' ! 1 = ''1''" by (simp add: itoa.simps digit_char_def)
  from f 1 2 3 show ?thesis by blast
qed

text \<open>
  The claim as it is written numbers the raw groups among themselves, whatever named
  parameters the path has. In the source the synthetic name is the index of the match
  among all matches: after one named parameter the first raw group is called \<open>1\<close>.
\<close>

theorem C5_counterexample:
  "\<exists>r. freeze (NewRoute ''/:a/(x)'') = Inr r \<and> params r = [''a'', ''1'']
       \<and> params r \<noteq> [''a'', ''0'']"
  by (simp add: freeze_defs rx_defs itoa.simps digit_char_def)

subsection \<open>Optional parameters\<close>

text \<open>
  C8, as amended. Take a route whose path is ordinary text that is not empty and has
  no colon, then an optional parameter \<open>:name?\<close> for which no assertion is declared,
  then ordinary text without a colon. Its compiled pattern accepts the path with the
  parameter left out, also with the character before the parameter left out as well
  (the slash of the segment), and every path in which a non-empty run of word
  characters stands in place of the parameter.
\<close>

theorem C8_optional_parameter:
  assumes "\<not> IsFrozen r"
    and "path r = pre @ CHR '':'' # nm @ CHR ''?'' # suf"
    and "pre \<noteq> []" and "list_all ordinary pre" and "CHR '':'' \<notin> set pre"
    and "nm \<noteq> []" and "list_all is_word_char nm"
    and "list_all ordinary suf" and "CHR '':'' \<notin> set suf"
    and "assertions r nm = None"
  shows "\<exists>r' re. freeze r = Inr r' \<and> pattern r' = Some re
      \<and> MatchString re (pre @ suf) \<and> MatchString re (butlast pre @ suf)
      \<and> (\<forall>v. v \<noteq> [] \<and> list_all is_word_char v \<longrightarrow> MatchString re (pre @ v @ suf))"
proof -
  let ?q = "if HasSuffix suf ''/'' then butlast suf else suf"
  let ?t = "if HasSuffix suf ''/'' then ''/'' else []"
  let ?el = "if passthrough r then [] else [EndText]"
  obtain pre0 x where pre: "pre = pre0 @ [x]"
    using assms(3) by (metis append_butlast_last_id)
  with assms(4) have p0: "list_all ordinary pre0" and x: "ordinary x" by simp_all
  have q: "list_all ordinary ?q"
    using assms(8) by (auto simp: list_all_iff dest: in_set_butlastD)
  have suf: "suf = ?q @ ?t"
    using HasSuffix_slash_split [of suf] by simp
  have t: "?t = [] \<or> ?t = ''/''" by simp
  have el: "?el = [] \<or> ?el = [EndText]" by simp
  let ?re = "mk_cat (BeginText # map Literal pre0 @ Quest (Literal x) # Quest word_group
            # map Literal ?q @ Quest (Literal CHR ''/'') # ?el)"
  have sp: "string_pattern r = ''^'' @ (pre0 @ [x]) @ ''?'' @ DefaultParamPattern @ ''?''
       @ ?q @ ''/?'' @ (if passthrough r then [] else ''$'')"
    using optional_param_string_pattern [OF assms(2,4,5,6,7,8,9,10)] pre by simp
  have c: "Compile (string_pattern r) = Inr ?re"
  proof (cases "passthrough r")
    case True
    with sp Compile_optional_param(2) [OF p0 x q] show ?thesis by simp
  next
    case False
    with sp Compile_optional_param(1) [OF p0 x q] show ?thesis by simp
  qed
  from assms(1) c obtain r' where f: "freeze r = Inr r'" and p: "pattern r' = Some ?re"
    by (simp add: freeze_def)
  have with_x: "MatchString ?re (pre0 @ x # v @ ?q @ ?t)"
    and without_x: "MatchString ?re (pre0 @ v @ ?q @ ?t)"
    if "v = [] \<or> list_all is_word_char v" for v
    using optional_param_accepts [OF t el that] by blast+
  have 1: "MatchString ?re (pre @ suf)"
    using with_x [of "[]"] pre suf by simp
  have 2: "MatchString ?re (butlast pre @ suf)"
    using without_x [of "[]"] pre suf by simp
  have 3: "MatchString ?re (pre @ v @ suf)" if "v \<noteq> [] \<and> list_all is_word_char v" for v
    using with_x [of v] that pre suf by simp
  from f p 1 2 3 show ?thesis by blast
qed

theorem C8_optional_parameter_witness:
  "\<exists>r' re. freeze (NewRoute ''/item/:id?'') = Inr r' \<and> pattern r' = Some re
      \<and> MatchString re ''/item/'' \<and> MatchString re ''/item'' \<and> MatchString re ''/item/42''"
proof -
  let ?r = "NewRoute ''/item/:id?''"
  have a: "\<not> IsFrozen ?r" by (simp add: IsFrozen_def NewRoute_def)
  have b: "path ?r = ''/item/'' @ CHR '':'' # ''id'' @ CHR ''?'' # []" by (simp add: NewRoute_def)
  have c: "''/item/'' \<noteq> []" "list_all ordinary ''/item/''" "CHR '':'' \<notin> set ''/item/''"
    by (simp_all add: ordinary_def meta_char_def)
  have d: "''id'' \<noteq> []" "list_all is_word_char ''id''"
    by (simp_all add: is_word_char_def is_digit_def is_upper_def is_lower_def)
  have e: "list_all ordinary []" "CHR '':'' \<notin> set []" by simp_all
  have g: "assertions ?r ''id'' = None" by (simp add: NewRoute_def)
  have w: "''42'' \<noteq> [] \<and> list_all is_word_char ''42''"
    by (simp add: is_word_char_def is_digit_def is_upper_def is_lower_def)
  from C8_optional_parameter [OF a b c d e g] obtain r' re
    where f: "freeze ?r = Inr r'" and p: "pattern r' = Some re"
      and 1: "MatchString re (''/item/'' @ [])" and 2: "MatchString re (butlast ''/item/'' @ [])"
      and 3: "\<forall>v. v \<noteq> [] \<and> list_all is_word_char v \<longrightarrow> MatchString re (''/item/'' @ v @ [])"
    by blast
  from 3 w have "MatchString re (''/item/'' @ ''42'' @ [])" by blast
  with f p 1 2 show ?thesis by auto
qed

text \<open>
  The claim as it is written speaks of every path with an optional parameter. The
  question mark that \<open>freeze\<close> puts before the group applies to whatever character
  precedes the parameter: after \<open>|\<close> the pattern does not compile and \<open>freeze\<close>
  panics; after \<open>+\<close> it makes the repetition lazy, and the pattern accepts neither
  the path without the parameter nor the path with it.
\<close>

theorem C8_counterexample:
  "freeze (NewRoute ''/a|:id?'') = Inl (RegexpError MissingRepeatArgument)
   \<and> (\<exists>r re. freeze (NewRoute ''/a+:id?'') = Inr r \<and> pattern r = Some re
         \<and> params r = [''id'']
         \<and> \<not> MatchString re ''/a+'' \<and> \<not> MatchString re ''/a+42'')"
proof -
  let ?re = "mk_cat [BeginText, Literal CHR ''/'', Plus (Literal CHR ''a''), Quest word_group,
      Quest (Literal CHR ''/''), EndText]"
  have 1: "freeze (NewRoute ''/a|:id?'') = Inl (RegexpError MissingRepeatArgument)"
    by (simp add: freeze_defs rx_defs FindAllWords.simps)
  have 2: "\<exists>r. freeze (NewRoute ''/a+:id?'') = Inr r \<and> pattern r = Some ?re
             \<and> params r = [''id'']"
    by (simp add: freeze_defs rx_defs FindAllWords.simps word_group_def)
  have 3: "\<not> MatchString ?re ''/a+''" "\<not> MatchString ?re ''/a+42''"
    by code_simp+
  from 1 2 3 show ?thesis by blast
qed

subsection \<open>Capture groups and parameter names\<close>

text \<open>
  C9. The claim: the compiled pattern has as many capture groups as the route has
  parameter names, so the binding loop of \<open>next\<close> never reads \<open>params\<close> out of range.
  For the path \<open>/(a)/(b)\<close> the route-variable pattern finds one match, \<open>(a)/(b)\<close>
  (its \<open>.+\<close> runs to the end of the line), so \<open>freeze\<close> records the single name \<open>0\<close>
  while the compiled pattern \<open>^/(a)/(b)/?$\<close> has two groups. Serving \<open>/a/b\<close>, the loop
  reads \<open>params[1]\<close> and panics.
\<close>

theorem C9_two_raw_groups_out_of_range:
  "\<exists>r re. freeze (NewRoute ''/(a)/(b)'') = Inr r \<and> pattern r = Some re
      \<and> params r = [''0''] \<and> NumSubexp re = 2
      \<and> MatchString re ''/a/b''
      \<and> bind_vars (params r) 0 [''a'', ''b''] Map.empty = Inl IndexOutOfRange
      \<and> micro_next (Suc 0)
            \<lparr>FindStringSubmatch = (\<lambda>re s. [''/a/b'', ''a'', ''b'']), StatusText = (\<lambda>c. [])\<rparr>
            New \<lparr>Method = ''GET'', URL_Path = ''/a/b''\<rparr> (first_serving [r])
          = Inl (Panic IndexOutOfRange)"
proof -
  let ?re = "mk_cat [BeginText, Literal CHR ''/'', Capture (mk_cat [Literal CHR ''a'']),
     Literal CHR ''/'', Capture (mk_cat [Literal CHR ''b'']), Quest (Literal CHR ''/''), EndText]"
  obtain r where f: "freeze (NewRoute ''/(a)/(b)'') = Inr r"
    and p: "pattern r = Some ?re" and ps: "params r = [''0'']"
    by (simp add: freeze_defs rx_defs itoa.simps digit_char_def)
  have n: "NumSubexp ?re = 2" by (simp add: mk_cat_def)
  have m: "MatchString ?re ''/a/b''" by code_simp
  have b: "bind_vars (params r) 0 [''a'', ''b''] Map.empty = Inl IndexOutOfRange"
    by (simp add: ps)
  have x: "micro_next (Suc 0)
            \<lparr>FindStringSubmatch = (\<lambda>re s. [''/a/b'', ''a'', ''b'']), StatusText = (\<lambda>c. [])\<rparr>
            New \<lparr>Method = ''GET'', URL_Path = ''/a/b''\<rparr> (first_serving [r])
          = Inl (Panic IndexOutOfRange)"
    by (simp add: first_serving_def p ps)
  from f p ps n m b x show ?thesis by blast
qed

subsection \<open>Flushing a tree of tables\<close>

declare Flush.simps [simp del] flush_children.simps [simp del]


lemma normalize_prefix_idem: "normalize_prefix (normalize_prefix p) = normalize_prefix p"
  by (cases p) (auto simp: normalize_prefix_def HasSuffix_slash Let_def)


lemma flat_routes_prefix_irrelevant:
  "flat_routes pfx (CC rs p f cs h) = flat_routes pfx (CC rs p' f cs h)"
  by simp

declare flat_routes.simps [simp del]












subsection \<open>Registering error handlers\<close>

text \<open>
  C7. \<open>Error(code, handler)\<close> before boot with a code below 400 panics; after boot it
  returns without changing the application, whatever the code; before boot with a
  code of 400 or more it stores the handler under the code and changes nothing else.
\<close>

theorem C7_Error:
  "(\<not> Booted e \<and> c < 400 \<longrightarrow> Error c h e = Inl (ErrorCodeTooLow c))
   \<and> (Booted e \<longrightarrow> Error c h e = Inr e)
   \<and> (\<not> Booted e \<and> 400 \<le> c \<longrightarrow>
        (\<exists>e'. Error c h e = Inr e' \<and> errorHandlers e' = (errorHandlers e)(c \<mapsto> h)
              \<and> handler_for e' c = h \<and> collection e' = collection e \<and> booted e' = booted e))"
  by (auto simp: Error_def handler_for_def)

theorem C7_Error_witness:
  "Error 399 NotFoundErrorHandler New = Inl (ErrorCodeTooLow 399)
   \<and> Error 500 NotFoundErrorHandler (New\<lparr>booted := True\<rparr>) = Inr (New\<lparr>booted := True\<rparr>)
   \<and> (\<exists>e'. Error 404 NotFoundErrorHandler New = Inr e' \<and> handler_for e' 404 = NotFoundErrorHandler)"
proof -
  have a: "\<not> Booted New" by (simp add: Booted_def New_def)
  have b: "Booted (New\<lparr>booted := True\<rparr>)" by (simp add: Booted_def)
  from C7_Error [of New 399 NotFoundErrorHandler] a
  have 1: "Error 399 NotFoundErrorHandler New = Inl (ErrorCodeTooLow 399)" by simp
  from C7_Error [of "New\<lparr>booted := True\<rparr>" 500 NotFoundErrorHandler] b
  have 2: "Error 500 NotFoundErrorHandler (New\<lparr>booted := True\<rparr>) = Inr (New\<lparr>booted := True\<rparr>)"
    by simp
  from C7_Error [of New 404 NotFoundErrorHandler] a
  have 3: "\<exists>e'. Error 404 NotFoundErrorHandler New = Inr e' \<and> handler_for e' 404 = NotFoundErrorHandler"
    by auto
  from 1 2 3 show ?thesis by blast
qed

end
